theory Spec2Isabelle
  imports Main "HOL-Library.Word"
begin

section \<open>Data model of the pipeline simulation (SimulationContext.tsx)\<close>

text \<open>
  The five pipeline stages, the three instruction kinds and the three hazard kinds are the
  string-literal union types of the source. The stage names carry the prefix \<open>Stage_\<close>
  (\<open>EX\<close> alone is input syntax of HOL).
\<close>

datatype StageName = Stage_IF | Stage_ID | Stage_EX | Stage_MEM | Stage_WB

datatype InstructionType = R | I | J

datatype HazardType = RAW | WAW | NONE

definition STAGE_NAMES :: "StageName list" where
  "STAGE_NAMES = [Stage_IF, Stage_ID, Stage_EX, Stage_MEM, Stage_WB]"

definition DEFAULT_STAGE_COUNT :: nat where
  "DEFAULT_STAGE_COUNT = length STAGE_NAMES"

text \<open>Interface \<open>RegisterUsage\<close>: the decoded fields of one instruction.\<close>

record RegisterUsage =
  rs :: nat
  rt :: nat
  rd :: nat
  opcode :: nat
  funct :: nat
  type :: InstructionType

text \<open>
  Interface \<open>HazardInfo\<close>. The source's field \<open>type\<close> is named \<open>hazardType\<close> here, since
  \<open>type\<close> is already the field of \<open>RegisterUsage\<close>.
\<close>

record HazardInfo =
  hazardType :: HazardType
  description :: string
  canForward :: bool
  stallCycles :: nat

text \<open>
  Interface \<open>ForwardingInfo\<close>. The source's fields \<open>from\<close> and \<open>to\<close> are named
  \<open>fromIndex\<close> and \<open>toIndex\<close>.
\<close>

record ForwardingInfo =
  fromIndex :: nat
  toIndex :: nat
  fromStage :: StageName
  toStage :: StageName
  register :: string

text \<open>The element type of the local array \<open>rawHazards\<close> of \<open>detectHazards\<close>.\<close>

record RawHazard =
  sourceReg :: string
  regNum :: nat
  fromInst :: nat
  distance :: nat

text \<open>
  An instruction is submitted as a text of eight hexadecimal digits (checked against
  \<open>HEX_REGEX\<close> by the input component before \<open>startSimulation\<close> is called). Such a text
  is represented by the number it denotes, a 32-bit word, which is what
  \<open>parseInt(hexInstruction, 16)\<close> returns for it.
\<close>

type_synonym instr = "32 word"

section \<open>Strings of digits\<close>

text \<open>
  \<open>Number.prototype.toString(radix)\<close> on a natural number: the digits, most significant
  first, without leading zeros. Template literals print numbers with radix 10.
\<close>

definition digitChar :: "nat \<Rightarrow> char" where
  "digitChar d = ''0123456789abcdefghijklmnopqrstuvwxyz'' ! d"

function toStringRadix :: "nat \<Rightarrow> nat \<Rightarrow> string" where
  "toStringRadix radix n =
     (if radix < 2 \<or> n < radix then [digitChar n]
      else toStringRadix radix (n div radix) @ [digitChar (n mod radix)])"
  by pat_completeness auto
termination
  by (relation "measure (\<lambda>(radix, n). n)") auto

declare toStringRadix.simps [simp del]

text \<open>\<open>String.prototype.padStart\<close> with a one-character filler.\<close>

definition padStart :: "nat \<Rightarrow> char \<Rightarrow> string \<Rightarrow> string" where
  "padStart targetLength c s = replicate (targetLength - length s) c @ s"

text \<open>
  \<open>String.prototype.substring\<close>: both indices are clamped to the length of the string and
  swapped when the first is the larger.
\<close>

definition substring :: "nat \<Rightarrow> nat \<Rightarrow> string \<Rightarrow> string" where
  "substring indexStart indexEnd s =
     (let a = min indexStart (length s); b = min indexEnd (length s)
      in take (max a b - min a b) (drop (min a b) s))"

text \<open>
  \<open>parseInt(s, 2)\<close> on a string of binary digits: its positional value. The strings that
  \<open>parseInstruction\<close> passes are non-empty pieces of a string of 32 binary digits
  (lemmas \<open>length_binaryOf\<close> and \<open>digits_binaryOf\<close>), so the result is never \<open>NaN\<close>.
\<close>

definition parseInt2 :: "string \<Rightarrow> nat" where
  "parseInt2 s = foldl (\<lambda>acc c. 2 * acc + (if c = CHR ''1'' then 1 else 0)) 0 s"

section \<open>Instruction decoder: \<open>parseInstruction\<close>\<close>

text \<open>The local \<open>binary\<close>: the instruction word as 32 binary digits.\<close>

definition binaryOf :: "instr \<Rightarrow> string" where
  "binaryOf hexInstruction = padStart 32 CHR ''0'' (toStringRadix 2 (unat hexInstruction))"

definition parseInstruction :: "instr \<Rightarrow> RegisterUsage" where
  "parseInstruction hexInstruction =
     (let binary = binaryOf hexInstruction;
          opcode = parseInt2 (substring 0 6 binary);
          rs = parseInt2 (substring 6 11 binary);
          rt = parseInt2 (substring 11 16 binary)
      in if opcode = 0 then
           \<lparr>rs = rs, rt = rt, rd = parseInt2 (substring 16 21 binary), opcode = opcode,
            funct = parseInt2 (substring 26 32 binary), type = R\<rparr>
         else if opcode = 2 \<or> opcode = 3 then
           \<lparr>rs = rs, rt = rt, rd = (if opcode = 3 then 31 else 0), opcode = opcode,
            funct = 0, type = J\<rparr>
         else
           \<lparr>rs = rs, rt = rt,
            rd = (if 32 \<le> opcode \<and> opcode \<le> 37 then rt
                  else if 8 \<le> opcode \<and> opcode \<le> 15 then rt
                  else 0),
            opcode = opcode, funct = 0, type = I\<rparr>)"

section \<open>Hazard analyzer: \<open>detectHazards\<close>\<close>

text \<open>
  The objects \<open>Record<number, T>\<close> of the source are filled for the indices
  \<open>0 .. instructions.length - 1\<close> and read by index; they are lists here. Reading
  \<open>registerUsage[i]\<close> at an index that is not there gives \<open>undefined\<close>, and the access to
  its field raises a \<open>TypeError\<close>.
\<close>

datatype error = TypeError

text \<open>The initial entry of \<open>hazards\<close> for every index.\<close>

definition noHazard :: HazardInfo where
  "noHazard = \<lparr>hazardType = NONE, description = ''No hazard'', canForward = False,
     stallCycles = 0\<rparr>"

text \<open>
  The three locals that the scan of the two preceding instructions updates:
  \<open>rawHazards\<close>, \<open>maxStallCycles\<close> and \<open>hazardDescription\<close>.
\<close>

record RawScan =
  rawHazards :: "RawHazard list"
  maxStallCycles :: nat
  hazardDescription :: string

text \<open>
  The template literal \<open>`rs($${currentInst.rs}) depends on instruction ${j}`\<close> (and the
  same with \<open>rt\<close>).
\<close>

definition dependsOn :: "string \<Rightarrow> nat \<Rightarrow> nat \<Rightarrow> string" where
  "dependsOn src reg j =
     src @ ''($'' @ toStringRadix 10 reg @ '') depends on instruction '' @ toStringRadix 10 j"

text \<open>
  The body shared by the two blocks "Check for RAW hazards on rs" and "on rt": push the
  match, and with forwarding disabled keep the larger number of stalls together with its
  description. \<open>3 - d\<close> is a subtraction of naturals: where the source's difference is
  negative it is 0 here, and neither is greater than \<open>maxStallCycles\<close>.
\<close>

definition noteRaw :: "bool \<Rightarrow> string \<Rightarrow> nat \<Rightarrow> nat \<Rightarrow> nat \<Rightarrow> RawScan \<Rightarrow> RawScan" where
  "noteRaw forwardingEnabled src reg j d scan =
     (let pushed = scan\<lparr>rawHazards := rawHazards scan @
            [\<lparr>sourceReg = src, regNum = reg, fromInst = j, distance = d\<rparr>]\<rparr>;
          stallsNeeded = 3 - d
      in if \<not> forwardingEnabled \<and> stallsNeeded > maxStallCycles scan
         then pushed\<lparr>maxStallCycles := stallsNeeded, hazardDescription := dependsOn src reg j\<rparr>
         else pushed)"

text \<open>One iteration of the inner loop \<open>for (let j = Math.max(0, i - 2); j < i; j++)\<close>.\<close>

definition rawStep :: "RegisterUsage list \<Rightarrow> bool \<Rightarrow> nat \<Rightarrow> nat \<Rightarrow> RawScan \<Rightarrow> RawScan" where
  "rawStep registerUsage forwardingEnabled i j scan =
     (let currentInst = registerUsage ! i;
          prevInst = registerUsage ! j;
          d = i - j
      in if rd prevInst = 0 then scan
         else
           let scan1 = (if rs currentInst = rd prevInst
                        then noteRaw forwardingEnabled ''rs'' (rs currentInst) j d scan
                        else scan)
           in (if rt currentInst = rd prevInst
               then noteRaw forwardingEnabled ''rt'' (rt currentInst) j d scan1
               else scan1))"

text \<open>The element that \<open>rawHazards.map\<close> builds for the instruction \<open>i\<close>.\<close>

definition forwardingOf :: "nat \<Rightarrow> RawHazard \<Rightarrow> ForwardingInfo" where
  "forwardingOf i hazard =
     \<lparr>fromIndex = fromInst hazard, toIndex = i,
      fromStage = (if distance hazard = 1 then Stage_EX else Stage_MEM), toStage = Stage_EX,
      register = ''$'' @ toStringRadix 10 (regNum hazard)\<rparr>"

text \<open>
  The loop that looks for a WAW hazard, over the indices \<open>js\<close> still to visit; it stops
  (\<open>break\<close>) at the first instruction that writes the same register.
\<close>

fun wawScan :: "RegisterUsage list \<Rightarrow> nat \<Rightarrow> nat list \<Rightarrow> HazardInfo list \<Rightarrow> HazardInfo list" where
  "wawScan registerUsage i [] hazards = hazards"
| "wawScan registerUsage i (j # js) hazards =
     (let currentInst = registerUsage ! i; prevInst = registerUsage ! j
      in if rd prevInst \<noteq> 0 \<and> rd currentInst = rd prevInst
         then hazards[i := \<lparr>hazardType = WAW,
                description = ''Both instructions write to $'' @ toStringRadix 10 (rd currentInst),
                canForward = True, stallCycles = 0\<rparr>]
         else wawScan registerUsage i js hazards)"

text \<open>
  One iteration of the outer loop \<open>for (let i = 1; i < instructions.length; i++)\<close>, on the
  three tables \<open>hazards\<close>, \<open>forwardings\<close> and \<open>stalls\<close>. \<open>Math.max(0, i - 2)\<close> is the
  subtraction of naturals \<open>i - 2\<close>.
\<close>

type_synonym tables = "HazardInfo list \<times> ForwardingInfo list list \<times> nat list"

definition hazardStep :: "RegisterUsage list \<Rightarrow> bool \<Rightarrow> nat \<Rightarrow> tables \<Rightarrow> tables" where
  "hazardStep registerUsage forwardingEnabled i tabs =
     (case tabs of (hazards, forwardings, stalls) \<Rightarrow>
        let currentInst = registerUsage ! i
        in if type currentInst = J then tabs
           else
             let scan = fold (rawStep registerUsage forwardingEnabled i) [i - 2..<i]
                          \<lparr>rawHazards = [], maxStallCycles = 0, hazardDescription = []\<rparr>
             in if rawHazards scan \<noteq> [] then
                  (hazards[i := \<lparr>hazardType = RAW,
                      description =
                        (if hazardDescription scan \<noteq> [] then hazardDescription scan
                         else ''Depends on previous instruction '' @
                              toStringRadix 10 (fromInst (hd (rawHazards scan)))),
                      canForward = forwardingEnabled,
                      stallCycles = (if forwardingEnabled then 0 else maxStallCycles scan)\<rparr>],
                   (if \<not> forwardingEnabled \<and> maxStallCycles scan > 0 then forwardings
                    else if forwardingEnabled
                    then forwardings[i := map (forwardingOf i) (rawHazards scan)]
                    else forwardings),
                   (if \<not> forwardingEnabled \<and> maxStallCycles scan > 0
                    then stalls[i := maxStallCycles scan]
                    else stalls))
                else if rd currentInst \<noteq> 0 then
                  (wawScan registerUsage i [i - 2..<i] hazards, forwardings, stalls)
                else tabs)"

text \<open>
  \<open>detectHazards\<close>: the tables start with "no hazard" at every index, then the loop runs.
  The loop reads \<open>registerUsage\<close> at every index below \<open>instructions.length\<close> as soon as
  there are two instructions, and raises where an entry is missing.
\<close>

definition detectHazards :: "instr list \<Rightarrow> RegisterUsage list \<Rightarrow> bool \<Rightarrow> error + tables" where
  "detectHazards instructions registerUsage forwardingEnabled =
     (let n = length instructions
      in if 2 \<le> n \<and> length registerUsage < n then Inl TypeError
         else Inr (fold (hazardStep registerUsage forwardingEnabled) [1..<n]
                     (replicate n noHazard, replicate n [], replicate n 0)))"

section \<open>Pipeline state machine: \<open>calculateNextState\<close>\<close>

text \<open>\<open>stalls[i] || 0\<close>: a missing entry counts as 0.\<close>

definition calculatePrecedingStalls :: "nat list \<Rightarrow> nat \<Rightarrow> nat" where
  "calculatePrecedingStalls stalls index =
     fold (\<lambda>i totalStalls. totalStalls + (if i < length stalls then stalls ! i else 0))
       [0..<index] 0"

text \<open>Interface \<open>SimulationState\<close>.\<close>

record SimulationState =
  instructions :: "instr list"
  currentCycle :: nat
  maxCycles :: nat
  isRunning :: bool
  stageCount :: nat
  instructionStages :: "nat option list"
  isFinished :: bool
  registerUsage :: "RegisterUsage list"
  hazards :: "HazardInfo list"
  forwardings :: "ForwardingInfo list list"
  stalls :: "nat list"
  currentStallCycles :: nat
  forwardingEnabled :: bool

definition initialState :: SimulationState where
  "initialState =
     \<lparr>instructions = [], currentCycle = 0, maxCycles = 0, isRunning = False,
      stageCount = DEFAULT_STAGE_COUNT, instructionStages = [], isFinished = False,
      registerUsage = [], hazards = [], forwardings = [], stalls = [],
      currentStallCycles = 0, forwardingEnabled = True\<rparr>"

text \<open>
  The body of \<open>currentState.instructions.forEach\<close> in \<open>calculateNextState\<close>, on the pair
  of \<open>newInstructionStages\<close> and \<open>newStallCycles\<close>. (The counter \<open>activeInstructions\<close> of
  the source is never read and is left out.) \<open>currentState.stalls[index] > 0\<close> is false
  for a missing entry.
\<close>

definition stageStep ::
  "SimulationState \<Rightarrow> nat \<Rightarrow> nat \<Rightarrow> nat option list \<times> nat \<Rightarrow> nat option list \<times> nat" where
  "stageStep currentState nextCycle index acc =
     (case acc of (newInstructionStages, newStallCycles) \<Rightarrow>
        let precedingStalls = calculatePrecedingStalls (stalls currentState) index;
            stageIndex = int nextCycle - int index - 1 - int precedingStalls
        in if 0 \<le> stageIndex \<and> stageIndex < int (stageCount currentState) then
             (newInstructionStages @ [Some (nat stageIndex)],
              if stageIndex = 1 \<and>
                 (index < length (stalls currentState) \<and> stalls currentState ! index > 0) \<and>
                 newStallCycles = 0
              then stalls currentState ! index
              else newStallCycles)
           else (newInstructionStages @ [None], newStallCycles))"

text \<open>The local \<open>completionCycle\<close> of \<open>calculateNextState\<close>.\<close>

definition completionCycle :: "SimulationState \<Rightarrow> nat" where
  "completionCycle currentState =
     (if length (instructions currentState) > 0
      then length (instructions currentState) + stageCount currentState - 1 +
           sum_list (stalls currentState)
      else 0)"

definition calculateNextState :: "SimulationState \<Rightarrow> SimulationState" where
  "calculateNextState currentState =
     (if \<not> isRunning currentState \<or> isFinished currentState then currentState
      else
        let nextCycle = currentCycle currentState + 1
        in if currentStallCycles currentState > 0 then
             currentState\<lparr>currentCycle := nextCycle,
               instructionStages := instructionStages currentState,
               currentStallCycles := currentStallCycles currentState - 1\<rparr>
           else
             case fold (stageStep currentState nextCycle)
                    [0..<length (instructions currentState)]
                    ([], currentStallCycles currentState)
             of (newInstructionStages, newStallCycles) \<Rightarrow>
               let finished = nextCycle > completionCycle currentState
               in currentState\<lparr>
                    currentCycle := (if finished then completionCycle currentState
                                     else nextCycle),
                    instructionStages := newInstructionStages,
                    isRunning := \<not> finished,
                    isFinished := finished,
                    currentStallCycles := newStallCycles\<rparr>)"

section \<open>Simulation controller\<close>

definition resetSimulation :: "SimulationState \<Rightarrow> SimulationState" where
  "resetSimulation prevState = initialState\<lparr>forwardingEnabled := forwardingEnabled prevState\<rparr>"

text \<open>
  \<open>startSimulation\<close>, as a function of the state it reads \<open>forwardingEnabled\<close> from. The
  stage of instruction \<open>index\<close> in cycle 1 is \<open>1 - index - 1\<close>.
\<close>

definition startSimulation :: "SimulationState \<Rightarrow> instr list \<Rightarrow> error + SimulationState" where
  "startSimulation simulationState submittedInstructions =
     (if length submittedInstructions = 0 then Inr (resetSimulation simulationState)
      else
        let usage = map parseInstruction submittedInstructions
        in case detectHazards submittedInstructions usage (forwardingEnabled simulationState) of
             Inl e \<Rightarrow> Inl e
           | Inr (hazardTable, forwardingTable, stallTable) \<Rightarrow>
               let totalStallCycles = sum_list stallTable;
                   calculatedMaxCycles =
                     length submittedInstructions + DEFAULT_STAGE_COUNT - 1 + totalStallCycles;
                   initialStages =
                     map (\<lambda>index. let stageIndex = 1 - int index - 1
                                   in if 0 \<le> stageIndex \<and> stageIndex < int DEFAULT_STAGE_COUNT
                                      then Some (nat stageIndex) else None)
                       [0..<length submittedInstructions]
               in Inr \<lparr>instructions = submittedInstructions, currentCycle = 1,
                        maxCycles = calculatedMaxCycles, isRunning = True,
                        stageCount = DEFAULT_STAGE_COUNT, instructionStages = initialStages,
                        isFinished = False, registerUsage = usage, hazards = hazardTable,
                        forwardings = forwardingTable, stalls = stallTable,
                        currentStallCycles = 0,
                        forwardingEnabled = forwardingEnabled simulationState\<rparr>)"

definition pauseSimulation :: "SimulationState \<Rightarrow> SimulationState" where
  "pauseSimulation prevState =
     (if isRunning prevState then prevState\<lparr>isRunning := False\<rparr> else prevState)"

definition resumeSimulation :: "SimulationState \<Rightarrow> SimulationState" where
  "resumeSimulation prevState =
     (if \<not> isRunning prevState \<and> currentCycle prevState > 0 \<and> \<not> isFinished prevState
      then prevState\<lparr>isRunning := True\<rparr>
      else prevState)"

definition setForwardingEnabled :: "bool \<Rightarrow> SimulationState \<Rightarrow> SimulationState" where
  "setForwardingEnabled enabled prevState = prevState\<lparr>forwardingEnabled := enabled\<rparr>"

text \<open>
  What can happen to the state held by the provider: the five actions, and the tick of the
  timer, which applies \<open>calculateNextState\<close>. An action that raised would leave the state
  as it was. A run of the controller is a list of events applied to \<open>initialState\<close>.
\<close>

datatype event =
  Start "instr list" | Reset | Pause | Resume | SetForwarding bool | Tick

fun apply_event :: "event \<Rightarrow> SimulationState \<Rightarrow> SimulationState" where
  "apply_event (Start submittedInstructions) s =
     (case startSimulation s submittedInstructions of Inl e \<Rightarrow> s | Inr s' \<Rightarrow> s')"
| "apply_event Reset s = resetSimulation s"
| "apply_event Pause s = pauseSimulation s"
| "apply_event Resume s = resumeSimulation s"
| "apply_event (SetForwarding enabled) s = setForwardingEnabled enabled s"
| "apply_event Tick s = calculateNextState s"

definition run :: "event list \<Rightarrow> SimulationState" where
  "run events = fold apply_event events initialState"

section \<open>Notions of the specification\<close>

text \<open>Bits \<open>hi\<close> down to \<open>lo\<close> of an instruction word, as a number.\<close>

definition bits :: "nat \<Rightarrow> nat \<Rightarrow> instr \<Rightarrow> nat" where
  "bits hi lo w = (unat w div 2 ^ lo) mod 2 ^ (Suc hi - lo)"

text \<open>
  The RAW matches of instruction \<open>i\<close>, in the order in which the analyzer meets them: for
  each of the (at most two) preceding instructions \<open>j\<close>, the earlier one first, that writes
  a register (\<open>rd \<noteq> 0\<close>), a match on \<open>rs\<close> and then a match on \<open>rt\<close>. A match is the
  name of the source register together with \<open>j\<close>; its distance is \<open>i - j\<close>.
\<close>

definition matchesAt :: "RegisterUsage list \<Rightarrow> nat \<Rightarrow> nat \<Rightarrow> (string \<times> nat) list" where
  "matchesAt usage i j =
     (if rd (usage ! j) = 0 then []
      else (if rs (usage ! i) = rd (usage ! j) then [(''rs'', j)] else []) @
           (if rt (usage ! i) = rd (usage ! j) then [(''rt'', j)] else []))"

definition rawMatches :: "RegisterUsage list \<Rightarrow> nat \<Rightarrow> (string \<times> nat) list" where
  "rawMatches usage i = concat (map (matchesAt usage i) [i - 2..<i])"

text \<open>The number of the register that a match is about.\<close>

definition sourceRegister :: "RegisterUsage list \<Rightarrow> nat \<Rightarrow> string \<times> nat \<Rightarrow> nat" where
  "sourceRegister usage i m = (if fst m = ''rs'' then rs (usage ! i) else rt (usage ! i))"

text \<open>Without forwarding a match at distance \<open>d\<close> needs \<open>3 - d\<close> stall cycles.\<close>

definition stallsNeededFor :: "nat \<Rightarrow> string \<times> nat \<Rightarrow> nat" where
  "stallsNeededFor i m = 3 - (i - snd m)"

definition maxStallsNeeded :: "RegisterUsage list \<Rightarrow> nat \<Rightarrow> nat" where
  "maxStallsNeeded usage i = Max (stallsNeededFor i ` set (rawMatches usage i))"

text \<open>The first match, in the order of the scan, that needs the maximal number of stalls.\<close>

definition firstMaximalMatch :: "RegisterUsage list \<Rightarrow> nat \<Rightarrow> string \<times> nat" where
  "firstMaximalMatch usage i =
     hd (filter (\<lambda>m. stallsNeededFor i m = maxStallsNeeded usage i) (rawMatches usage i))"

text \<open>The description that a match gives to the hazard.\<close>

definition matchDescription :: "RegisterUsage list \<Rightarrow> nat \<Rightarrow> string \<times> nat \<Rightarrow> string" where
  "matchDescription usage i m = dependsOn (fst m) (sourceRegister usage i m) (snd m)"

text \<open>
  The forwarding edge of a match: from the EX stage of the instruction just before, from
  the MEM stage of the one before that, always to the EX stage of instruction \<open>i\<close>.
\<close>

definition edgeOf :: "RegisterUsage list \<Rightarrow> nat \<Rightarrow> string \<times> nat \<Rightarrow> ForwardingInfo" where
  "edgeOf usage i m =
     \<lparr>fromIndex = snd m, toIndex = i,
      fromStage = (if i - snd m = 1 then Stage_EX else Stage_MEM), toStage = Stage_EX,
      register = ''$'' @ toStringRadix 10 (sourceRegister usage i m)\<rparr>"

text \<open>The record of a WAW hazard on a register, and the test of the WAW loop.\<close>

definition wawHazard :: "nat \<Rightarrow> HazardInfo" where
  "wawHazard reg = \<lparr>hazardType = WAW,
     description = ''Both instructions write to $'' @ toStringRadix 10 reg,
     canForward = True, stallCycles = 0\<rparr>"

definition wawMatch :: "RegisterUsage list \<Rightarrow> nat \<Rightarrow> nat \<Rightarrow> bool" where
  "wawMatch usage i j \<longleftrightarrow> rd (usage ! j) \<noteq> 0 \<and> rd (usage ! i) = rd (usage ! j)"

text \<open>
  Auxiliary notions for the proofs: the entry of \<open>rawHazards\<close> that a match pushes, the
  update of the scan by a match, and the scan of the whole window.
\<close>

definition rawHazardOf :: "RegisterUsage list \<Rightarrow> nat \<Rightarrow> string \<times> nat \<Rightarrow> RawHazard" where
  "rawHazardOf usage i m =
     \<lparr>sourceReg = fst m, regNum = sourceRegister usage i m, fromInst = snd m,
      distance = i - snd m\<rparr>"

definition noteMatch ::
  "RegisterUsage list \<Rightarrow> bool \<Rightarrow> nat \<Rightarrow> string \<times> nat \<Rightarrow> RawScan \<Rightarrow> RawScan" where
  "noteMatch usage fwd i m = noteRaw fwd (fst m) (sourceRegister usage i m) (snd m) (i - snd m)"

definition scanOf :: "RegisterUsage list \<Rightarrow> bool \<Rightarrow> nat \<Rightarrow> RawScan" where
  "scanOf usage fwd i =
     fold (rawStep usage fwd i) [i - 2..<i]
       \<lparr>rawHazards = [], maxStallCycles = 0, hazardDescription = []\<rparr>"

text \<open>
  The stage index that \<open>calculateNextState\<close> computes for instruction \<open>k\<close> in the cycle
  \<open>nextCycle\<close>, and the entry of the stage mapping that it stores for it.
\<close>

definition stageIndexOf :: "nat list \<Rightarrow> nat \<Rightarrow> nat \<Rightarrow> int" where
  "stageIndexOf stallTable nextCycle k =
     int nextCycle - int k - 1 - int (calculatePrecedingStalls stallTable k)"

definition stageAt :: "SimulationState \<Rightarrow> nat \<Rightarrow> nat \<Rightarrow> nat option" where
  "stageAt s nextCycle k =
     (if 0 \<le> stageIndexOf (stalls s) nextCycle k \<and>
         stageIndexOf (stalls s) nextCycle k < int (stageCount s)
      then Some (nat (stageIndexOf (stalls s) nextCycle k)) else None)"

text \<open>No two distinct instructions are in the same stage: the non-null entries differ.\<close>

definition noSharedStage :: "nat option list \<Rightarrow> bool" where
  "noSharedStage stages \<longleftrightarrow>
     (\<forall>i j. i < length stages \<and> j < length stages \<and> i \<noteq> j \<and> stages ! i \<noteq> None \<longrightarrow>
        stages ! i \<noteq> stages ! j)"

text \<open>What holds of the state after every run of the controller.\<close>

definition invariant :: "SimulationState \<Rightarrow> bool" where
  "invariant s \<longleftrightarrow>
     stageCount s = DEFAULT_STAGE_COUNT \<and>
     maxCycles s = completionCycle s \<and>
     currentCycle s \<le> completionCycle s \<and>
     (\<not> isFinished s \<longrightarrow> currentCycle s + currentStallCycles s \<le> completionCycle s) \<and>
     (instructions s = [] \<longrightarrow> \<not> isRunning s \<and> \<not> isFinished s \<and> currentCycle s = 0) \<and>
     (instructions s \<noteq> [] \<longrightarrow> 0 < currentCycle s) \<and>
     noSharedStage (instructionStages s) \<and>
     (\<exists>fwd. detectHazards (instructions s) (registerUsage s) fwd =
        Inr (hazards s, forwardings s, stalls s))"

section \<open>The decoder reads the bit fields of the word\<close>

lemma parseInt2_snoc:
  "parseInt2 (s @ [c]) = 2 * parseInt2 s + (if c = CHR ''1'' then 1 else 0)"
  by (simp add: parseInt2_def)

lemma parseInt2_Nil: "parseInt2 [] = 0"
  by (simp add: parseInt2_def)

lemma parseInt2_append:
  "parseInt2 (xs @ ys) = parseInt2 xs * 2 ^ length ys + parseInt2 ys"
proof (induction ys rule: rev_induct)
  case Nil
  show ?case by (simp add: parseInt2_Nil)
next
  case (snoc y ys)
  have "parseInt2 (xs @ ys @ [y]) = 2 * parseInt2 (xs @ ys) + (if y = CHR ''1'' then 1 else 0)"
    using parseInt2_snoc [of "xs @ ys" y] by simp
  with snoc show ?case
    by (simp add: parseInt2_snoc algebra_simps)
qed

lemma parseInt2_bound: "parseInt2 s < 2 ^ length s"
proof (induction s rule: rev_induct)
  case Nil
  show ?case by (simp add: parseInt2_Nil)
next
  case (snoc c s)
  then show ?case by (simp add: parseInt2_snoc)
qed

lemma parseInt2_zeros: "parseInt2 (replicate k CHR ''0'') = 0"
proof (induction k)
  case 0
  show ?case by (simp add: parseInt2_Nil)
next
  case (Suc k)
  have "replicate (Suc k) CHR ''0'' = replicate k CHR ''0'' @ [CHR ''0'']"
    by (simp add: replicate_append_same)
  with Suc show ?case by (simp only: parseInt2_snoc) simp
qed

lemma digitChar_bit: "d < 2 \<Longrightarrow> digitChar d = (if d = 1 then CHR ''1'' else CHR ''0'')"
  by (cases d) (auto simp: digitChar_def)

lemma parseInt2_toStringRadix: "parseInt2 (toStringRadix 2 n) = n"
proof (induction "2::nat" n rule: toStringRadix.induct)
  case (1 n)
  show ?case
  proof (cases "n < 2")
    case True
    then show ?thesis
      using parseInt2_snoc [of "[]" "digitChar n"]
      by (auto simp: toStringRadix.simps [of 2 n] digitChar_bit parseInt2_Nil)
  next
    case False
    with 1 have ih: "parseInt2 (toStringRadix 2 (n div 2)) = n div 2" by simp
    have unfold: "toStringRadix 2 n = toStringRadix 2 (n div 2) @ [digitChar (n mod 2)]"
      using False by (simp add: toStringRadix.simps [of 2 n])
    have "n mod 2 = 0 \<or> n mod 2 = 1" by arith
    then have digit: "(if digitChar (n mod 2) = CHR ''1'' then 1 else 0) = n mod 2"
      by (auto simp: digitChar_def)
    have "parseInt2 (toStringRadix 2 n) = 2 * (n div 2) + n mod 2"
      unfolding unfold parseInt2_snoc ih digit ..
    also have "\<dots> = n" by arith
    finally show ?thesis .
  qed
qed

lemma length_toStringRadix2: "n < 2 ^ k \<Longrightarrow> 0 < k \<Longrightarrow> length (toStringRadix 2 n) \<le> k"
proof (induction "2::nat" n arbitrary: k rule: toStringRadix.induct)
  case (1 n)
  show ?case
  proof (cases "n < 2")
    case True
    with 1(3) show ?thesis by (simp add: toStringRadix.simps [of 2 n])
  next
    case False
    obtain k' where k: "k = Suc k'" using 1(3) by (cases k) auto
    with 1(2) have lt: "n div 2 < 2 ^ k'" by auto
    from False lt have "0 < k'" by (cases k') auto
    with 1(1) [of k'] False lt have "length (toStringRadix 2 (n div 2)) \<le> k'" by simp
    with False k show ?thesis by (simp add: toStringRadix.simps [of 2 n])
  qed
qed

lemma length_binaryOf: "length (binaryOf w) = 32"
proof -
  have "unat w < 2 ^ 32" using unsigned_less [of w] by simp
  then have "length (toStringRadix 2 (unat w)) \<le> 32"
    by (rule length_toStringRadix2) simp
  then show ?thesis by (simp add: binaryOf_def padStart_def)
qed

lemma parseInt2_binaryOf: "parseInt2 (binaryOf w) = unat w"
  by (simp add: binaryOf_def padStart_def parseInt2_append parseInt2_zeros
      parseInt2_toStringRadix)

lemma parseInt2_take:
  assumes "e \<le> length s"
  shows "parseInt2 (take e s) = parseInt2 s div 2 ^ (length s - e)"
proof -
  have "parseInt2 s = parseInt2 (take e s) * 2 ^ length (drop e s) + parseInt2 (drop e s)"
    using parseInt2_append [of "take e s" "drop e s"] by simp
  moreover have "parseInt2 (drop e s) < 2 ^ length (drop e s)"
    by (rule parseInt2_bound)
  ultimately show ?thesis by simp
qed

lemma parseInt2_substring:
  assumes "a \<le> e" and "e \<le> length s"
  shows "parseInt2 (substring a e s) = (parseInt2 s div 2 ^ (length s - e)) mod 2 ^ (e - a)"
proof -
  let ?t = "take e s"
  have sub: "substring a e s = drop a ?t"
    using assms by (simp add: substring_def min_absorb1 max_absorb2 drop_take)
  have "parseInt2 ?t = parseInt2 (take a ?t) * 2 ^ length (drop a ?t) + parseInt2 (drop a ?t)"
    using parseInt2_append [of "take a ?t" "drop a ?t"]
    by (simp only: append_take_drop_id)
  moreover have "parseInt2 (drop a ?t) < 2 ^ length (drop a ?t)"
    by (rule parseInt2_bound)
  moreover have "length (drop a ?t) = e - a" using assms by simp
  ultimately have "parseInt2 (drop a ?t) = parseInt2 ?t mod 2 ^ (e - a)" by simp
  with sub parseInt2_take [OF assms(2)] show ?thesis by simp
qed

lemma field_of_binaryOf:
  "a \<le> e \<Longrightarrow> e \<le> 32 \<Longrightarrow>
     parseInt2 (substring a e (binaryOf w)) = (unat w div 2 ^ (32 - e)) mod 2 ^ (e - a)"
  using parseInt2_substring [of a e "binaryOf w"]
  by (simp add: length_binaryOf parseInt2_binaryOf)

lemma opcode_parse: "parseInt2 (substring 0 6 (binaryOf w)) = bits 31 26 w"
proof -
  have "unat w < 2 ^ 32" using unsigned_less [of w] by simp
  then have "unat w div 2 ^ 26 < 2 ^ 6" by (simp add: less_mult_imp_div_less)
  then have "unat w div 2 ^ 26 mod 2 ^ 6 = unat w div 2 ^ 26" by (rule mod_less)
  moreover have "bits 31 26 w = unat w div 2 ^ 26 mod 2 ^ 6"
    unfolding bits_def by simp
  moreover have "parseInt2 (substring 0 6 (binaryOf w)) = unat w div 2 ^ 26"
    using field_of_binaryOf [of 0 6 w] \<open>unat w div 2 ^ 26 mod 2 ^ 6 = unat w div 2 ^ 26\<close>
    by simp
  ultimately show ?thesis by simp
qed

lemma rs_parse: "parseInt2 (substring 6 11 (binaryOf w)) = bits 25 21 w"
  using field_of_binaryOf [of 6 11 w] unfolding bits_def by simp

lemma rt_parse: "parseInt2 (substring 11 16 (binaryOf w)) = bits 20 16 w"
  using field_of_binaryOf [of 11 16 w] unfolding bits_def by simp

lemma rd_parse: "parseInt2 (substring 16 21 (binaryOf w)) = bits 15 11 w"
  using field_of_binaryOf [of 16 21 w] unfolding bits_def by simp

lemma funct_parse: "parseInt2 (substring 26 32 (binaryOf w)) = bits 5 0 w"
  using field_of_binaryOf [of 26 32 w] unfolding bits_def by simp

lemma digits_toStringRadix2: "set (toStringRadix 2 n) \<subseteq> {CHR ''0'', CHR ''1''}"
proof (induction "2::nat" n rule: toStringRadix.induct)
  case (1 n)
  show ?case
  proof (cases "n < 2")
    case True
    then show ?thesis
      by (auto simp: toStringRadix.simps [of 2 n] digitChar_bit)
  next
    case False
    have "n mod 2 < 2" by simp
    then have "digitChar (n mod 2) \<in> {CHR ''0'', CHR ''1''}"
      by (simp add: digitChar_bit)
    with 1 False show ?thesis
      by (simp add: toStringRadix.simps [of 2 n])
  qed
qed

lemma digits_binaryOf: "set (binaryOf w) \<subseteq> {CHR ''0'', CHR ''1''}"
  using digits_toStringRadix2 [of "unat w"] by (auto simp: binaryOf_def padStart_def)

lemma parseInstruction_bits:
  "parseInstruction w =
     (let op = bits 31 26 w in
      \<lparr>rs = bits 25 21 w, rt = bits 20 16 w,
       rd = (if op = 0 then bits 15 11 w
             else if op = 3 then 31
             else if op = 2 then 0
             else if (32 \<le> op \<and> op \<le> 37) \<or> (8 \<le> op \<and> op \<le> 15) then bits 20 16 w
             else 0),
       opcode = op,
       funct = (if op = 0 then bits 5 0 w else 0),
       type = (if op = 0 then R else if op = 2 \<or> op = 3 then J else I)\<rparr>)"
  by (simp add: parseInstruction_def Let_def opcode_parse rs_parse rt_parse rd_parse
      funct_parse)

text \<open>
  Claim C1. For every 32-bit instruction word \<open>parseInstruction\<close> returns a record (it is
  a total function) whose fields are the bit fields of the word: \<open>opcode\<close> is bits 31..26,
  \<open>rs\<close> bits 25..21, \<open>rt\<close> bits 20..16. With opcode 0 the kind is R and the destination
  register is bits 15..11; with opcode 3 the kind is J and the destination is 31, with
  opcode 2 the kind is J and the destination is 0; with any other opcode the kind is I and
  the destination is the \<open>rt\<close> field when the opcode is in 32..37 or in 8..15, and 0
  otherwise.
\<close>

theorem parseInstruction_fields:
  "parseInstruction w =
     (let op = bits 31 26 w in
      \<lparr>rs = bits 25 21 w, rt = bits 20 16 w,
       rd = (if op = 0 then bits 15 11 w
             else if op = 3 then 31
             else if op = 2 then 0
             else if (32 \<le> op \<and> op \<le> 37) \<or> (8 \<le> op \<and> op \<le> 15) then bits 20 16 w
             else 0),
       opcode = op,
       funct = (if op = 0 then bits 5 0 w else 0),
       type = (if op = 0 then R else if op = 2 \<or> op = 3 then J else I)\<rparr>)"
  by (rule parseInstruction_bits)

text \<open>The word \<open>00a63820\<close> (add \<open>$7, $5, $6\<close>) is of kind R and writes register 7.\<close>

theorem parseInstruction_fields_witness:
  "type (parseInstruction 0x00a63820) = R \<and> rs (parseInstruction 0x00a63820) = 5 \<and>
   rt (parseInstruction 0x00a63820) = 6 \<and> rd (parseInstruction 0x00a63820) = 7"
  using parseInstruction_fields [of "0x00a63820"] by (simp add: bits_def)

section \<open>The scan of the look-back window\<close>

lemma rawStep_matches:
  "rawStep usage fwd i j scan = fold (noteMatch usage fwd i) (matchesAt usage i j) scan"
  by (simp add: rawStep_def matchesAt_def noteMatch_def sourceRegister_def Let_def)

lemma fold_rawStep:
  "fold (rawStep usage fwd i) js scan =
     fold (noteMatch usage fwd i) (concat (map (matchesAt usage i) js)) scan"
  by (induction js arbitrary: scan) (simp_all add: rawStep_matches)

lemma scan_rawMatches:
  "fold (rawStep usage fwd i) [i - 2..<i] scan =
     fold (noteMatch usage fwd i) (rawMatches usage i) scan"
  by (simp add: fold_rawStep rawMatches_def)

lemma rawHazards_noteMatch:
  "rawHazards (noteMatch usage fwd i m scan) = rawHazards scan @ [rawHazardOf usage i m]"
  by (simp add: noteMatch_def noteRaw_def rawHazardOf_def Let_def)

lemma rawHazards_fold:
  "rawHazards (fold (noteMatch usage fwd i) ms scan) =
     rawHazards scan @ map (rawHazardOf usage i) ms"
  by (induction ms arbitrary: scan) (simp_all add: rawHazards_noteMatch)

lemma noteMatch_forwarding:
  "maxStallCycles (noteMatch usage True i m scan) = maxStallCycles scan \<and>
   hazardDescription (noteMatch usage True i m scan) = hazardDescription scan"
  by (simp add: noteMatch_def noteRaw_def Let_def)

lemma fold_forwarding:
  "maxStallCycles (fold (noteMatch usage True i) ms scan) = maxStallCycles scan \<and>
   hazardDescription (fold (noteMatch usage True i) ms scan) = hazardDescription scan"
  by (induction ms arbitrary: scan) (simp_all add: noteMatch_forwarding)

lemma noteMatch_stalling:
  "maxStallCycles (noteMatch usage False i m scan) =
     max (maxStallCycles scan) (stallsNeededFor i m) \<and>
   hazardDescription (noteMatch usage False i m scan) =
     (if stallsNeededFor i m > maxStallCycles scan then matchDescription usage i m
      else hazardDescription scan)"
  by (simp add: noteMatch_def noteRaw_def Let_def stallsNeededFor_def matchDescription_def)

lemma fold_stalling:
  "maxStallCycles (fold (noteMatch usage False i) ms scan) =
     Max (insert (maxStallCycles scan) (stallsNeededFor i ` set ms)) \<and>
   hazardDescription (fold (noteMatch usage False i) ms scan) =
     (if Max (insert (maxStallCycles scan) (stallsNeededFor i ` set ms)) > maxStallCycles scan
      then matchDescription usage i
             (hd (filter (\<lambda>m. stallsNeededFor i m =
                    Max (insert (maxStallCycles scan) (stallsNeededFor i ` set ms))) ms))
      else hazardDescription scan)"
proof (induction ms arbitrary: scan)
  case Nil
  show ?case by simp
next
  case (Cons m ms)
  let ?N = "stallsNeededFor i ` set ms"
  let ?c = "maxStallCycles scan"
  let ?n = "stallsNeededFor i m"
  let ?scan' = "noteMatch usage False i m scan"
  have fin: "finite ?N" by simp
  have M: "Max (insert ?c (stallsNeededFor i ` set (m # ms))) = max ?n (Max (insert ?c ?N))"
  proof -
    have "insert ?c (stallsNeededFor i ` set (m # ms)) = insert ?n (insert ?c ?N)" by auto
    moreover have "Max (insert ?n (insert ?c ?N)) = max ?n (Max (insert ?c ?N))"
      by (rule Max_insert) (simp_all add: fin)
    ultimately show ?thesis by (simp only:)
  qed
  have c': "maxStallCycles ?scan' = max ?c ?n" by (simp add: noteMatch_stalling)
  have M': "Max (insert (maxStallCycles ?scan') ?N) = max ?n (Max (insert ?c ?N))"
  proof (cases "?N = {}")
    case True
    then show ?thesis by (simp add: c' max.commute)
  next
    case False
    have "Max (insert (max ?c ?n) ?N) = max (max ?c ?n) (Max ?N)"
      by (rule Max_insert [OF fin False])
    moreover have "Max (insert ?c ?N) = max ?c (Max ?N)"
      by (rule Max_insert [OF fin False])
    ultimately show ?thesis
      by (simp only: c' max.assoc max.commute max.left_commute)
  qed
  define B where "B = Max (insert (maxStallCycles ?scan') ?N)"
  have eqM: "Max (insert ?c (stallsNeededFor i ` set (m # ms))) = B"
    by (simp only: M M' B_def)
  define A where "A = Max (insert ?c ?N)"
  have "?c \<le> A" unfolding A_def by (rule Max_ge) (simp_all add: fin)
  moreover have "B = max ?n A" by (simp only: B_def A_def M')
  ultimately have bounds: "?n \<le> B" "?c \<le> B" by simp_all
  have IH: "maxStallCycles (fold (noteMatch usage False i) ms ?scan') = B \<and>
      hazardDescription (fold (noteMatch usage False i) ms ?scan') =
        (if B > maxStallCycles ?scan'
         then matchDescription usage i (hd (filter (\<lambda>x. stallsNeededFor i x = B) ms))
         else hazardDescription ?scan')"
    using Cons.IH [of ?scan'] by (simp only: B_def)
  have step: "fold (noteMatch usage False i) (m # ms) scan =
      fold (noteMatch usage False i) ms ?scan'"
    by simp
  have first: "hd (filter (\<lambda>x. stallsNeededFor i x = B) (m # ms)) =
      (if ?n = B then m else hd (filter (\<lambda>x. stallsNeededFor i x = B) ms))"
    by simp
  show ?case
    unfolding eqM step first
    using IH bounds by (cases "?n > ?c") (auto simp: c' noteMatch_stalling)
qed

lemma rawMatches_window:
  assumes "m \<in> set (rawMatches usage i)"
  shows "i - 2 \<le> snd m \<and> snd m < i \<and> rd (usage ! snd m) \<noteq> 0 \<and>
         sourceRegister usage i m = rd (usage ! snd m) \<and> (fst m = ''rs'' \<or> fst m = ''rt'')"
  using assms
  by (auto simp: rawMatches_def matchesAt_def sourceRegister_def split: if_splits)

lemma stallsNeededFor_positive:
  "m \<in> set (rawMatches usage i) \<Longrightarrow> 0 < stallsNeededFor i m"
  using rawMatches_window [of m usage i] by (auto simp: stallsNeededFor_def)

lemma maxStallsNeeded_positive:
  assumes "rawMatches usage i \<noteq> []"
  shows "0 < maxStallsNeeded usage i"
proof -
  from assms obtain m where m: "m \<in> set (rawMatches usage i)"
    by (cases "rawMatches usage i") auto
  then have "stallsNeededFor i m \<le> maxStallsNeeded usage i"
    unfolding maxStallsNeeded_def by (intro Max_ge) auto
  with stallsNeededFor_positive [OF m] show ?thesis by simp
qed

lemma matchDescription_nonempty: "matchDescription usage i m \<noteq> []"
  using rawMatches_window
  by (cases "fst m") (auto simp: matchDescription_def dependsOn_def)

lemma edgeOf_rawHazardOf: "forwardingOf i \<circ> rawHazardOf usage i = edgeOf usage i"
  by (rule ext) (simp add: forwardingOf_def rawHazardOf_def edgeOf_def)

lemma scanOf_rawHazards:
  "rawHazards (scanOf usage fwd i) = map (rawHazardOf usage i) (rawMatches usage i)"
  by (simp add: scanOf_def scan_rawMatches rawHazards_fold)

lemma scanOf_forwarding:
  "maxStallCycles (scanOf usage True i) = 0 \<and> hazardDescription (scanOf usage True i) = []"
  by (simp add: scanOf_def scan_rawMatches fold_forwarding)

lemma scanOf_stalling:
  assumes "rawMatches usage i \<noteq> []"
  shows "maxStallCycles (scanOf usage False i) = maxStallsNeeded usage i \<and>
         hazardDescription (scanOf usage False i) =
           matchDescription usage i (firstMaximalMatch usage i)"
proof -
  let ?N = "stallsNeededFor i ` set (rawMatches usage i)"
  let ?init = "\<lparr>rawHazards = [], maxStallCycles = 0, hazardDescription = []\<rparr>"
  have "finite ?N" and "?N \<noteq> {}" using assms by simp_all
  then have "Max (insert 0 ?N) = max 0 (Max ?N)" by (rule Max_insert)
  then have M: "Max (insert (maxStallCycles ?init) ?N) = maxStallsNeeded usage i"
    by (simp add: maxStallsNeeded_def)
  have pos: "maxStallCycles ?init < maxStallsNeeded usage i"
    using maxStallsNeeded_positive [OF assms] by simp
  show ?thesis
    unfolding scanOf_def scan_rawMatches
    using fold_stalling [of usage i "rawMatches usage i" ?init] pos
    unfolding M firstMaximalMatch_def by simp
qed

section \<open>One iteration of the analyzer, and the independence of the iterations\<close>

lemma wawScan_result:
  "wawScan usage i js hz =
     (if \<exists>j \<in> set js. wawMatch usage i j then hz[i := wawHazard (rd (usage ! i))] else hz)"
  by (induction js) (auto simp: Let_def wawMatch_def wawHazard_def)

lemma hazardStep_J:
  "type (usage ! i) = J \<Longrightarrow> hazardStep usage fwd i tabs = tabs"
  by (cases tabs) (simp add: hazardStep_def)

lemma hazardStep_raw_forwarding:
  assumes "type (usage ! i) \<noteq> J" and "rawMatches usage i \<noteq> []"
  shows "hazardStep usage True i (hz, fw, st) =
     (hz[i := \<lparr>hazardType = RAW,
         description = ''Depends on previous instruction '' @
           toStringRadix 10 (snd (hd (rawMatches usage i))),
         canForward = True, stallCycles = 0\<rparr>],
      fw[i := map (edgeOf usage i) (rawMatches usage i)], st)"
proof -
  have "hd (map (rawHazardOf usage i) (rawMatches usage i)) =
      rawHazardOf usage i (hd (rawMatches usage i))"
    using assms(2) by (simp add: hd_map)
  then have "fromInst (hd (rawHazards (scanOf usage True i))) = snd (hd (rawMatches usage i))"
    by (simp add: scanOf_rawHazards rawHazardOf_def)
  then show ?thesis
    using assms scanOf_forwarding [of usage i]
    by (simp add: hazardStep_def Let_def scanOf_def [symmetric] scanOf_rawHazards
        edgeOf_rawHazardOf)
qed

lemma hazardStep_raw_stalling:
  assumes "type (usage ! i) \<noteq> J" and "rawMatches usage i \<noteq> []"
  shows "hazardStep usage False i (hz, fw, st) =
     (hz[i := \<lparr>hazardType = RAW,
         description = matchDescription usage i (firstMaximalMatch usage i),
         canForward = False, stallCycles = maxStallsNeeded usage i\<rparr>],
      fw, st[i := maxStallsNeeded usage i])"
  using assms scanOf_stalling [OF assms(2)] maxStallsNeeded_positive [OF assms(2)]
    matchDescription_nonempty [of usage i "firstMaximalMatch usage i"]
  by (simp add: hazardStep_def Let_def scanOf_def [symmetric] scanOf_rawHazards)

lemma hazardStep_no_raw:
  assumes "type (usage ! i) \<noteq> J" and "rawMatches usage i = []"
  shows "hazardStep usage fwd i (hz, fw, st) =
     (if rd (usage ! i) \<noteq> 0 \<and> (\<exists>j \<in> set [i - 2..<i]. wawMatch usage i j)
      then hz[i := wawHazard (rd (usage ! i))] else hz, fw, st)"
  using assms
  by (simp add: hazardStep_def Let_def scanOf_def [symmetric] scanOf_rawHazards
      wawScan_result)

lemma hazardStep_frame:
  assumes "hazardStep usage fwd i (hz, fw, st) = (hz', fw', st')"
  shows "length hz' = length hz \<and> length fw' = length fw \<and> length st' = length st \<and>
         (k \<noteq> i \<longrightarrow> hz' ! k = hz ! k \<and> fw' ! k = fw ! k \<and> st' ! k = st ! k)"
  using assms
  by (auto simp: hazardStep_def Let_def wawScan_result split: if_splits)

lemma fold_hazardStep_frame:
  assumes "fold (hazardStep usage fwd) ks (hz, fw, st) = (hz', fw', st')"
  shows "length hz' = length hz \<and> length fw' = length fw \<and> length st' = length st \<and>
         (k \<notin> set ks \<longrightarrow> hz' ! k = hz ! k \<and> fw' ! k = fw ! k \<and> st' ! k = st ! k)"
  using assms
proof (induction ks arbitrary: hz fw st)
  case Nil
  then show ?case by simp
next
  case (Cons j ks)
  obtain hz1 fw1 st1 where one: "hazardStep usage fwd j (hz, fw, st) = (hz1, fw1, st1)"
    by (cases "hazardStep usage fwd j (hz, fw, st)") auto
  with Cons.prems have "fold (hazardStep usage fwd) ks (hz1, fw1, st1) = (hz', fw', st')"
    by simp
  from Cons.IH [OF this] hazardStep_frame [OF one, of k] show ?case by auto
qed

lemma detectHazards_entry:
  assumes "detectHazards ins usage fwd = Inr (hz, fw, st)" and "1 \<le> i" and "i < length ins"
  shows "\<exists>hz0 fw0 st0 hz1 fw1 st1.
           hazardStep usage fwd i (hz0, fw0, st0) = (hz1, fw1, st1) \<and>
           i < length hz0 \<and> i < length fw0 \<and> i < length st0 \<and>
           hz0 ! i = noHazard \<and> fw0 ! i = [] \<and> st0 ! i = 0 \<and>
           hz ! i = hz1 ! i \<and> fw ! i = fw1 ! i \<and> st ! i = st1 ! i"
proof -
  let ?n = "length ins"
  let ?f = "hazardStep usage fwd"
  let ?T = "(replicate ?n noHazard, replicate ?n [], replicate ?n 0)"
  have split: "[Suc 0..<?n] = [Suc 0..<i] @ i # [Suc i..<?n]"
    using assms(2,3) upt_add_eq_append [of "Suc 0" i "length ins - i"]
      upt_conv_Cons [of i "length ins"]
    by simp
  from assms(1) have res: "fold ?f [Suc 0..<?n] ?T = (hz, fw, st)"
    by (simp add: detectHazards_def Let_def split: if_splits)
  obtain hz0 fw0 st0 where pre: "fold ?f [Suc 0..<i] ?T = (hz0, fw0, st0)"
    by (cases "fold ?f [Suc 0..<i] ?T") auto
  obtain hz1 fw1 st1 where one: "?f i (hz0, fw0, st0) = (hz1, fw1, st1)"
    by (cases "?f i (hz0, fw0, st0)") auto
  have "fold ?f ([Suc 0..<i] @ i # [Suc i..<?n]) ?T = (hz, fw, st)"
    using res unfolding split .
  then have post: "fold ?f [Suc i..<?n] (hz1, fw1, st1) = (hz, fw, st)"
    by (simp add: pre one)
  from fold_hazardStep_frame [OF pre, of i] assms(3)
  have a: "i < length hz0 \<and> i < length fw0 \<and> i < length st0 \<and>
           hz0 ! i = noHazard \<and> fw0 ! i = [] \<and> st0 ! i = 0"
    by simp
  from fold_hazardStep_frame [OF post, of i]
  have b: "hz ! i = hz1 ! i \<and> fw ! i = fw1 ! i \<and> st ! i = st1 ! i" by simp
  from one a b show ?thesis by blast
qed

lemma detectHazards_first:
  assumes "detectHazards ins usage fwd = Inr (hz, fw, st)" and "0 < length ins"
  shows "hz ! 0 = noHazard \<and> fw ! 0 = [] \<and> st ! 0 = 0"
proof -
  let ?n = "length ins"
  let ?T = "(replicate ?n noHazard, replicate ?n [], replicate ?n 0)"
  from assms(1) have res: "fold (hazardStep usage fwd) [1..<?n] ?T = (hz, fw, st)"
    by (simp add: detectHazards_def Let_def split: if_splits)
  from fold_hazardStep_frame [OF res, of 0] assms(2) show ?thesis by simp
qed

lemma detectHazards_lengths:
  assumes "detectHazards ins usage fwd = Inr (hz, fw, st)"
  shows "length hz = length ins \<and> length fw = length ins \<and> length st = length ins"
proof -
  let ?n = "length ins"
  let ?T = "(replicate ?n noHazard, replicate ?n [], replicate ?n 0)"
  from assms(1) have res: "fold (hazardStep usage fwd) [1..<?n] ?T = (hz, fw, st)"
    by (simp add: detectHazards_def Let_def split: if_splits)
  from fold_hazardStep_frame [OF res, of 0] show ?thesis by simp
qed

lemma detectHazards_total:
  assumes "length ins \<le> length usage"
  shows "\<exists>hz fw st. detectHazards ins usage fwd = Inr (hz, fw, st)"
proof -
  obtain hz fw st where
    "fold (hazardStep usage fwd) [1..<length ins]
       (replicate (length ins) noHazard, replicate (length ins) [], replicate (length ins) 0) =
     (hz, fw, st)"
    by (rule prod_cases3)
  with assms have "detectHazards ins usage fwd = Inr (hz, fw, st)"
    by (simp add: detectHazards_def Let_def)
  then show ?thesis by blast
qed

section \<open>Evaluation of the analyzer on instruction sequences\<close>

lemmas hazard_eval = detectHazards_def hazardStep_def rawStep_def noteRaw_def dependsOn_def
  forwardingOf_def Let_def toStringRadix.simps digitChar_def

lemma upt_0_2: "[0..<2] = [0, 1]"
  by (simp add: upt_rec)

lemma usage_add_add_add:
  "map parseInstruction [0x00a63820, 0x00a64020, 0x00e84820] =
     [\<lparr>rs = 5, rt = 6, rd = 7, opcode = 0, funct = 32, type = R\<rparr>,
      \<lparr>rs = 5, rt = 6, rd = 8, opcode = 0, funct = 32, type = R\<rparr>,
      \<lparr>rs = 7, rt = 8, rd = 9, opcode = 0, funct = 32, type = R\<rparr>]"
  by (simp add: parseInstruction_bits bits_def)

lemma usage_add_j:
  "map parseInstruction [0x00a63820, 0x08e00000] =
     [\<lparr>rs = 5, rt = 6, rd = 7, opcode = 0, funct = 32, type = R\<rparr>,
      \<lparr>rs = 7, rt = 0, rd = 0, opcode = 2, funct = 0, type = J\<rparr>]"
  by (simp add: parseInstruction_bits bits_def)

lemma usage_jal_jr:
  "map parseInstruction [0x0c000000, 0x03e00008] =
     [\<lparr>rs = 0, rt = 0, rd = 31, opcode = 3, funct = 0, type = J\<rparr>,
      \<lparr>rs = 31, rt = 0, rd = 0, opcode = 0, funct = 8, type = R\<rparr>]"
  by (simp add: parseInstruction_bits bits_def)

lemma usage_add_add:
  "map parseInstruction [0x00a63820, 0x00a63820] =
     [\<lparr>rs = 5, rt = 6, rd = 7, opcode = 0, funct = 32, type = R\<rparr>,
      \<lparr>rs = 5, rt = 6, rd = 7, opcode = 0, funct = 32, type = R\<rparr>]"
  by (simp add: parseInstruction_bits bits_def)

lemma usage_add5_add6:
  "map parseInstruction [0x00a63820, 0x00a64020] =
     [\<lparr>rs = 5, rt = 6, rd = 7, opcode = 0, funct = 32, type = R\<rparr>,
      \<lparr>rs = 5, rt = 6, rd = 8, opcode = 0, funct = 32, type = R\<rparr>]"
  by (simp add: parseInstruction_bits bits_def)

section \<open>RAW hazards without forwarding\<close>

lemma raw_stalling_entry:
  assumes "detectHazards ins usage False = Inr (hz, fw, st)"
    and "1 \<le> i" and "i < length ins"
    and "type (usage ! i) \<noteq> J"
    and "rawMatches usage i \<noteq> []"
  shows "hz ! i = \<lparr>hazardType = RAW,
           description = matchDescription usage i (firstMaximalMatch usage i),
           canForward = False, stallCycles = maxStallsNeeded usage i\<rparr> \<and>
         st ! i = maxStallsNeeded usage i"
proof -
  from detectHazards_entry [OF assms(1-3)] obtain hz0 fw0 st0 hz1 fw1 st1 where
    step: "hazardStep usage False i (hz0, fw0, st0) = (hz1, fw1, st1)" and
    len: "i < length hz0" "i < length st0" and
    res: "hz ! i = hz1 ! i" "st ! i = st1 ! i"
    by blast
  from step len res show ?thesis
    by (auto simp: hazardStep_raw_stalling [OF assms(4,5)])
qed

text \<open>
  Claim C2, amended. Given the register usage of every instruction, the analyzer returns
  its tables. With forwarding disabled, an instruction at index \<open>i \<ge> 1\<close> that is not
  of kind J and has at least one RAW match (its \<open>rs\<close> or \<open>rt\<close> equals the nonzero
  destination register of an instruction at distance 1 or 2) gets the hazard kind RAW; its
  stall count, in the hazard record and in the table of stalls, is the maximum over its
  matches of 3 minus the distance; and its description is the one of the first match, in
  the order of the scan (smaller \<open>j\<close> first, \<open>rs\<close> before \<open>rt\<close>), that needs that maximum.
\<close>

theorem raw_stalls_without_forwarding:
  assumes "length ins \<le> length usage"
    and "1 \<le> i" and "i < length ins"
    and "type (usage ! i) \<noteq> J"
    and "rawMatches usage i \<noteq> []"
  shows "\<exists>hz fw st. detectHazards ins usage False = Inr (hz, fw, st) \<and>
           hz ! i = \<lparr>hazardType = RAW,
             description = matchDescription usage i (firstMaximalMatch usage i),
             canForward = False, stallCycles = maxStallsNeeded usage i\<rparr> \<and>
           st ! i = maxStallsNeeded usage i"
proof -
  from detectHazards_total [OF assms(1)] obtain hz fw st where
    d: "detectHazards ins usage False = Inr (hz, fw, st)"
    by blast
  from raw_stalling_entry [OF d assms(2-5)] d show ?thesis by blast
qed

text \<open>
  Three additions: the third reads register 7, written two instructions before (one stall
  needed), and register 8, written just before (two stalls needed). The maximum is 2 and
  the description is the one of the match on \<open>rt\<close>.
\<close>

theorem raw_stalls_without_forwarding_witness:
  "detectHazards [0x00a63820, 0x00a64020, 0x00e84820]
     (map parseInstruction [0x00a63820, 0x00a64020, 0x00e84820]) False =
     Inr ([noHazard, noHazard,
           \<lparr>hazardType = RAW, description = ''rt($8) depends on instruction 1'',
            canForward = False, stallCycles = 2\<rparr>],
          [[], [], []], [0, 0, 2]) \<and>
   type (map parseInstruction [0x00a63820, 0x00a64020, 0x00e84820] ! 2) \<noteq> J \<and>
   rawMatches (map parseInstruction [0x00a63820, 0x00a64020, 0x00e84820]) 2 =
     [(''rs'', 0), (''rt'', 1)] \<and>
   maxStallsNeeded (map parseInstruction [0x00a63820, 0x00a64020, 0x00e84820]) 2 = 2 \<and>
   matchDescription (map parseInstruction [0x00a63820, 0x00a64020, 0x00e84820]) 2
     (firstMaximalMatch (map parseInstruction [0x00a63820, 0x00a64020, 0x00e84820]) 2) =
     ''rt($8) depends on instruction 1''"
proof -
  let ?ins = "[0x00a63820, 0x00a64020, 0x00e84820] :: instr list"
  let ?hz = "[noHazard, noHazard,
           \<lparr>hazardType = RAW, description = ''rt($8) depends on instruction 1'',
            canForward = False, stallCycles = 2\<rparr>]"
  have d: "detectHazards ?ins (map parseInstruction ?ins) False =
      Inr (?hz, [[], [], []], [0, 0, 2])"
    unfolding usage_add_add_add by (simp add: hazard_eval)
  have t: "type (map parseInstruction ?ins ! 2) \<noteq> J"
    unfolding usage_add_add_add by simp
  have m: "rawMatches (map parseInstruction ?ins) 2 = [(''rs'', 0), (''rt'', 1)]"
    unfolding usage_add_add_add by (simp add: rawMatches_def matchesAt_def upt_0_2)
  have ne: "rawMatches (map parseInstruction ?ins) 2 \<noteq> []"
    unfolding m by simp
  have len: "length ?ins \<le> length (map parseInstruction ?ins)" by simp
  from raw_stalls_without_forwarding [OF len _ _ t ne] obtain hz fw st where
    d': "detectHazards ?ins (map parseInstruction ?ins) False = Inr (hz, fw, st)" and
    c': "hz ! 2 = \<lparr>hazardType = RAW,
      description = matchDescription (map parseInstruction ?ins) 2
        (firstMaximalMatch (map parseInstruction ?ins) 2),
      canForward = False, stallCycles = maxStallsNeeded (map parseInstruction ?ins) 2\<rparr> \<and>
      st ! 2 = maxStallsNeeded (map parseInstruction ?ins) 2"
    by auto
  from d d' have "hz = ?hz" and "st = [0, 0, 2]" by simp_all
  with c' have c: "?hz ! 2 = \<lparr>hazardType = RAW,
      description = matchDescription (map parseInstruction ?ins) 2
        (firstMaximalMatch (map parseInstruction ?ins) 2),
      canForward = False, stallCycles = maxStallsNeeded (map parseInstruction ?ins) 2\<rparr> \<and>
      [0, 0, 2] ! 2 = maxStallsNeeded (map parseInstruction ?ins) 2"
    by simp
  from c have mx: "maxStallsNeeded (map parseInstruction ?ins) 2 = 2"
    by simp
  from c have "''rt($8) depends on instruction 1'' =
      matchDescription (map parseInstruction ?ins) 2
        (firstMaximalMatch (map parseInstruction ?ins) 2)"
    by simp
  then have ds: "matchDescription (map parseInstruction ?ins) 2
        (firstMaximalMatch (map parseInstruction ?ins) 2) =
      ''rt($8) depends on instruction 1''"
    by (rule sym)
  from d t m mx ds show ?thesis by blast
qed

text \<open>
  The claim as it is stated does not exclude the instructions of kind J, which the analyzer
  skips. The word \<open>08e00000\<close> is a jump whose bits 25..21 are 7, the register that the
  addition before it writes: there is a match at distance 1, and yet the jump has no
  hazard and no stall.
\<close>

theorem raw_stalls_jump_counterexample:
  "rs (parseInstruction 0x08e00000) = rd (parseInstruction 0x00a63820) \<and>
   rd (parseInstruction 0x00a63820) \<noteq> 0 \<and>
   rawMatches (map parseInstruction [0x00a63820, 0x08e00000]) 1 = [(''rs'', 0)] \<and>
   detectHazards [0x00a63820, 0x08e00000]
     (map parseInstruction [0x00a63820, 0x08e00000]) False =
     Inr ([noHazard, noHazard], [[], []], [0, 0]) \<and>
   hazardType noHazard = NONE"
proof -
  have "detectHazards [0x00a63820, 0x08e00000]
     (map parseInstruction [0x00a63820, 0x08e00000]) False =
     Inr ([noHazard, noHazard], [[], []], [0, 0])"
    unfolding usage_add_j by (simp add: hazard_eval)
  moreover have "rawMatches (map parseInstruction [0x00a63820, 0x08e00000]) 1 = [(''rs'', 0)]"
    unfolding usage_add_j by (simp add: rawMatches_def matchesAt_def)
  ultimately show ?thesis
    using usage_add_j by (simp add: noHazard_def)
qed

section \<open>RAW hazards with forwarding\<close>

lemma forwarding_entry:
  assumes "detectHazards ins usage True = Inr (hz, fw, st)"
    and "1 \<le> i" and "i < length ins"
    and "type (usage ! i) \<noteq> J"
  shows "fw ! i = map (edgeOf usage i) (rawMatches usage i) \<and>
         (\<forall>m \<in> set (rawMatches usage i). i - snd m = 1 \<or> i - snd m = 2) \<and>
         st ! i = 0 \<and> stallCycles (hz ! i) = 0"
proof -
  from detectHazards_entry [OF assms(1-3)] obtain hz0 fw0 st0 hz1 fw1 st1 where
    step: "hazardStep usage True i (hz0, fw0, st0) = (hz1, fw1, st1)" and
    len: "i < length hz0" "i < length fw0" "i < length st0" and
    init: "hz0 ! i = noHazard" "fw0 ! i = []" "st0 ! i = 0" and
    res: "hz ! i = hz1 ! i" "fw ! i = fw1 ! i" "st ! i = st1 ! i"
    by blast
  have window: "\<forall>m \<in> set (rawMatches usage i). i - snd m = 1 \<or> i - snd m = 2"
    using rawMatches_window [of _ usage i] by fastforce
  show ?thesis
  proof (cases "rawMatches usage i = []")
    case True
    with step len init res window show ?thesis
      by (auto simp: hazardStep_no_raw [OF assms(4) True] wawHazard_def noHazard_def
          split: if_splits)
  next
    case False
    with step len init res window show ?thesis
      by (auto simp: hazardStep_raw_forwarding [OF assms(4) False])
  qed
qed

text \<open>
  Claim C3, amended. Given the register usage of every instruction, the analyzer returns
  its tables. With forwarding enabled, an instruction at index \<open>i \<ge> 1\<close> that is not
  of kind J has stall count 0 and exactly one forwarding edge for each of its RAW matches,
  in the order of the matches; every match is at distance 1 or 2, the edge of a match at
  distance 1 comes from the EX stage, the edge of a match at distance 2 from the MEM stage,
  and every edge goes to the EX stage. With no RAW match there is no edge.
\<close>

theorem forwarding_edges:
  assumes "length ins \<le> length usage"
    and "1 \<le> i" and "i < length ins"
    and "type (usage ! i) \<noteq> J"
  shows "\<exists>hz fw st. detectHazards ins usage True = Inr (hz, fw, st) \<and>
           fw ! i = map (edgeOf usage i) (rawMatches usage i) \<and>
           (\<forall>m \<in> set (rawMatches usage i). i - snd m = 1 \<or> i - snd m = 2) \<and>
           st ! i = 0 \<and> stallCycles (hz ! i) = 0"
proof -
  from detectHazards_total [OF assms(1)] obtain hz fw st where
    d: "detectHazards ins usage True = Inr (hz, fw, st)"
    by blast
  from forwarding_entry [OF d assms(2-4)] d show ?thesis by blast
qed

text \<open>
  The three additions again: the third instruction gets an edge from the MEM stage of the
  first and an edge from the EX stage of the second.
\<close>

theorem forwarding_edges_witness:
  "detectHazards [0x00a63820, 0x00a64020, 0x00e84820]
     (map parseInstruction [0x00a63820, 0x00a64020, 0x00e84820]) True =
     Inr ([noHazard, noHazard,
           \<lparr>hazardType = RAW, description = ''Depends on previous instruction 0'',
            canForward = True, stallCycles = 0\<rparr>],
          [[], [],
           [\<lparr>fromIndex = 0, toIndex = 2, fromStage = Stage_MEM, toStage = Stage_EX,
             register = ''$7''\<rparr>,
            \<lparr>fromIndex = 1, toIndex = 2, fromStage = Stage_EX, toStage = Stage_EX,
             register = ''$8''\<rparr>]],
          [0, 0, 0]) \<and>
   type (map parseInstruction [0x00a63820, 0x00a64020, 0x00e84820] ! 2) \<noteq> J \<and>
   rawMatches (map parseInstruction [0x00a63820, 0x00a64020, 0x00e84820]) 2 =
     [(''rs'', 0), (''rt'', 1)] \<and>
   map (edgeOf (map parseInstruction [0x00a63820, 0x00a64020, 0x00e84820]) 2)
     (rawMatches (map parseInstruction [0x00a63820, 0x00a64020, 0x00e84820]) 2) =
     [\<lparr>fromIndex = 0, toIndex = 2, fromStage = Stage_MEM, toStage = Stage_EX,
       register = ''$7''\<rparr>,
      \<lparr>fromIndex = 1, toIndex = 2, fromStage = Stage_EX, toStage = Stage_EX,
       register = ''$8''\<rparr>]"
proof -
  let ?ins = "[0x00a63820, 0x00a64020, 0x00e84820] :: instr list"
  let ?hz = "[noHazard, noHazard,
           \<lparr>hazardType = RAW, description = ''Depends on previous instruction 0'',
            canForward = True, stallCycles = 0\<rparr>]"
  let ?edges = "[\<lparr>fromIndex = 0, toIndex = 2, fromStage = Stage_MEM, toStage = Stage_EX,
             register = ''$7''\<rparr>,
            \<lparr>fromIndex = 1, toIndex = 2, fromStage = Stage_EX, toStage = Stage_EX,
             register = ''$8''\<rparr>]"
  have d: "detectHazards ?ins (map parseInstruction ?ins) True =
      Inr (?hz, [[], [], ?edges], [0, 0, 0])"
    unfolding usage_add_add_add by (simp add: hazard_eval)
  have t: "type (map parseInstruction ?ins ! 2) \<noteq> J"
    unfolding usage_add_add_add by simp
  have m: "rawMatches (map parseInstruction ?ins) 2 = [(''rs'', 0), (''rt'', 1)]"
    unfolding usage_add_add_add by (simp add: rawMatches_def matchesAt_def upt_0_2)
  have len: "length ?ins \<le> length (map parseInstruction ?ins)" by simp
  from forwarding_edges [OF len _ _ t] obtain hz fw st where
    d': "detectHazards ?ins (map parseInstruction ?ins) True = Inr (hz, fw, st)" and
    c': "fw ! 2 =
      map (edgeOf (map parseInstruction ?ins) 2) (rawMatches (map parseInstruction ?ins) 2)"
    by auto
  from d d' have "fw = [[], [], ?edges]" by simp
  with c' have "[[], [], ?edges] ! 2 =
      map (edgeOf (map parseInstruction ?ins) 2) (rawMatches (map parseInstruction ?ins) 2)"
    by simp
  then have e: "map (edgeOf (map parseInstruction ?ins) 2)
      (rawMatches (map parseInstruction ?ins) 2) = ?edges"
    by simp
  from d t m e show ?thesis by blast
qed

text \<open>
  The claim as it is stated does not exclude the instructions of kind J: the jump
  \<open>08e00000\<close> has a match at distance 1 on register 7 and gets no forwarding edge.
\<close>

theorem forwarding_edges_jump_counterexample:
  "rs (parseInstruction 0x08e00000) = rd (parseInstruction 0x00a63820) \<and>
   rd (parseInstruction 0x00a63820) \<noteq> 0 \<and>
   rawMatches (map parseInstruction [0x00a63820, 0x08e00000]) 1 = [(''rs'', 0)] \<and>
   detectHazards [0x00a63820, 0x08e00000]
     (map parseInstruction [0x00a63820, 0x08e00000]) True =
     Inr ([noHazard, noHazard], [[], []], [0, 0])"
proof -
  have "detectHazards [0x00a63820, 0x08e00000]
     (map parseInstruction [0x00a63820, 0x08e00000]) True =
     Inr ([noHazard, noHazard], [[], []], [0, 0])"
    unfolding usage_add_j by (simp add: hazard_eval)
  moreover have "rawMatches (map parseInstruction [0x00a63820, 0x08e00000]) 1 = [(''rs'', 0)]"
    unfolding usage_add_j by (simp add: rawMatches_def matchesAt_def)
  ultimately show ?thesis
    using usage_add_j by simp
qed

section \<open>Jumps and the first instruction\<close>

lemma jump_first_entry:
  assumes "detectHazards ins usage fwd = Inr (hz, fw, st)" and "i < length ins"
  shows "(i = 0 \<or> type (usage ! i) = J \<longrightarrow> hz ! i = noHazard \<and> st ! i = 0 \<and> fw ! i = []) \<and>
         (hazardType (hz ! i) \<noteq> NONE \<longrightarrow>
            (\<exists>j \<in> set [i - 2..<i]. rd (usage ! j) \<noteq> 0 \<and>
               (rs (usage ! i) = rd (usage ! j) \<or> rt (usage ! i) = rd (usage ! j) \<or>
                rd (usage ! i) = rd (usage ! j)))) \<and>
         (\<forall>e \<in> set (fw ! i).
            i - 2 \<le> fromIndex e \<and> fromIndex e < i \<and> rd (usage ! fromIndex e) \<noteq> 0)"
proof (cases "i = 0")
  case True
  with detectHazards_first [OF assms(1)] assms(2) show ?thesis
    by (simp add: noHazard_def)
next
  case False
  then have "1 \<le> i" by simp
  from detectHazards_entry [OF assms(1) this assms(2)] obtain hz0 fw0 st0 hz1 fw1 st1 where
    step: "hazardStep usage fwd i (hz0, fw0, st0) = (hz1, fw1, st1)" and
    len: "i < length hz0" "i < length fw0" "i < length st0" and
    init: "hz0 ! i = noHazard" "fw0 ! i = []" "st0 ! i = 0" and
    res: "hz ! i = hz1 ! i" "fw ! i = fw1 ! i" "st ! i = st1 ! i"
    by blast
  show ?thesis
  proof (cases "type (usage ! i) = J")
    case True
    with step init res show ?thesis
      by (simp add: hazardStep_J noHazard_def)
  next
    case notJ: False
    show ?thesis
    proof (cases "rawMatches usage i = []")
      case True
      from step len init res False notJ show ?thesis
        unfolding hazardStep_no_raw [OF notJ True]
        by (auto simp: wawMatch_def noHazard_def split: if_splits)
    next
      case some: False
      then obtain m where m: "m \<in> set (rawMatches usage i)"
        by (cases "rawMatches usage i") auto
      from rawMatches_window [OF m]
      have src: "\<exists>j \<in> set [i - 2..<i]. rd (usage ! j) \<noteq> 0 \<and>
          (rs (usage ! i) = rd (usage ! j) \<or> rt (usage ! i) = rd (usage ! j) \<or>
           rd (usage ! i) = rd (usage ! j))"
        by (intro bexI [of _ "snd m"]) (auto simp: sourceRegister_def split: if_splits)
      have edges: "\<forall>e \<in> set (map (edgeOf usage i) (rawMatches usage i)).
          i - 2 \<le> fromIndex e \<and> fromIndex e < i \<and> rd (usage ! fromIndex e) \<noteq> 0"
        using rawMatches_window [of _ usage i] by (auto simp: edgeOf_def)
      show ?thesis
      proof (cases fwd)
        case True
        with step have "(hz1, fw1, st1) =
            (hz0[i := \<lparr>hazardType = RAW,
                description = ''Depends on previous instruction '' @
                  toStringRadix 10 (snd (hd (rawMatches usage i))),
                canForward = True, stallCycles = 0\<rparr>],
             fw0[i := map (edgeOf usage i) (rawMatches usage i)], st0)"
          by (simp add: hazardStep_raw_forwarding [OF notJ some])
        with len init res False notJ src edges show ?thesis
          by simp
      next
        case noFwd: False
        with step have "(hz1, fw1, st1) =
            (hz0[i := \<lparr>hazardType = RAW,
                description = matchDescription usage i (firstMaximalMatch usage i),
                canForward = False, stallCycles = maxStallsNeeded usage i\<rparr>],
             fw0, st0[i := maxStallsNeeded usage i])"
          by (simp add: hazardStep_raw_stalling [OF notJ some])
        with len init res False notJ src show ?thesis
          by simp
      qed
    qed
  qed
qed

text \<open>
  Claim C4, amended. Given the register usage of every instruction, the analyzer returns
  its tables. With either forwarding policy, the instruction at index 0 and every
  instruction of kind J have the record "no hazard", no stall and no forwarding edge. Every
  hazard that is recorded against an instruction comes from one of the two instructions
  before it whose destination register is nonzero and equal to its \<open>rs\<close>, \<open>rt\<close> or
  \<open>rd\<close>, and every forwarding edge starts at one of the two instructions before it
  (\<open>i - 2 \<le> fromIndex < i\<close>) whose destination register is nonzero. So an instruction
  that writes no register, such as the jump with opcode 2, is never the source of a
  hazard; nothing is said of the jump-and-link (opcode 3), whose destination register is
  31.
\<close>

theorem jump_and_first_have_no_hazard:
  assumes "length ins \<le> length usage" and "i < length ins"
  shows "\<exists>hz fw st. detectHazards ins usage fwd = Inr (hz, fw, st) \<and>
         (i = 0 \<or> type (usage ! i) = J \<longrightarrow> hz ! i = noHazard \<and> st ! i = 0 \<and> fw ! i = []) \<and>
         (hazardType (hz ! i) \<noteq> NONE \<longrightarrow>
            (\<exists>j \<in> set [i - 2..<i]. rd (usage ! j) \<noteq> 0 \<and>
               (rs (usage ! i) = rd (usage ! j) \<or> rt (usage ! i) = rd (usage ! j) \<or>
                rd (usage ! i) = rd (usage ! j)))) \<and>
         (\<forall>e \<in> set (fw ! i).
            i - 2 \<le> fromIndex e \<and> fromIndex e < i \<and> rd (usage ! fromIndex e) \<noteq> 0)"
proof -
  from detectHazards_total [OF assms(1)] obtain hz fw st where
    d: "detectHazards ins usage fwd = Inr (hz, fw, st)"
    by blast
  from jump_first_entry [OF d assms(2)] d show ?thesis by blast
qed

text \<open>
  A jump after an addition has no hazard; the instruction after a jump-and-link that reads
  register 31 gets a forwarding edge from it.
\<close>

theorem jump_and_first_have_no_hazard_witness:
  "detectHazards [0x00a63820, 0x08e00000] (map parseInstruction [0x00a63820, 0x08e00000]) True =
     Inr ([noHazard, noHazard], [[], []], [0, 0]) \<and>
   type (map parseInstruction [0x00a63820, 0x08e00000] ! 1) = J \<and>
   [noHazard, noHazard] ! 1 = noHazard \<and> [0, 0] ! 1 = (0::nat) \<and>
   ([[], []] :: ForwardingInfo list list) ! 1 = [] \<and>
   detectHazards [0x0c000000, 0x03e00008] (map parseInstruction [0x0c000000, 0x03e00008]) True =
     Inr ([noHazard,
           \<lparr>hazardType = RAW, description = ''Depends on previous instruction 0'',
            canForward = True, stallCycles = 0\<rparr>],
          [[], [\<lparr>fromIndex = 0, toIndex = 1, fromStage = Stage_EX, toStage = Stage_EX,
                 register = ''$31''\<rparr>]],
          [0, 0]) \<and>
   rd (map parseInstruction [0x0c000000, 0x03e00008] ! 0) \<noteq> 0 \<and>
   rs (map parseInstruction [0x0c000000, 0x03e00008] ! 1) =
     rd (map parseInstruction [0x0c000000, 0x03e00008] ! 0)"
proof -
  let ?A = "[0x00a63820, 0x08e00000] :: instr list"
  let ?B = "[0x0c000000, 0x03e00008] :: instr list"
  let ?raw = "\<lparr>hazardType = RAW, description = ''Depends on previous instruction 0'',
            canForward = True, stallCycles = 0\<rparr>"
  let ?edge = "\<lparr>fromIndex = 0, toIndex = 1, fromStage = Stage_EX, toStage = Stage_EX,
                 register = ''$31''\<rparr>"
  have dA: "detectHazards ?A (map parseInstruction ?A) True =
      Inr ([noHazard, noHazard], [[], []], [0, 0])"
    unfolding usage_add_j by (simp add: hazard_eval)
  have tA: "type (map parseInstruction ?A ! 1) = J"
    unfolding usage_add_j by simp
  have lenA: "length ?A \<le> length (map parseInstruction ?A)" by simp
  from jump_and_first_have_no_hazard [OF lenA, of 1 True] obtain hz fw st where
    dA': "detectHazards ?A (map parseInstruction ?A) True = Inr (hz, fw, st)" and
    cA': "1 = (0::nat) \<or> type (map parseInstruction ?A ! 1) = J \<longrightarrow>
      hz ! 1 = noHazard \<and> st ! 1 = 0 \<and> fw ! 1 = []"
    by auto
  from dA dA' have "hz = [noHazard, noHazard]" and "st = [0, 0]" and "fw = [[], []]"
    by simp_all
  with cA' tA
  have cA: "[noHazard, noHazard] ! 1 = noHazard \<and> [0, 0] ! 1 = (0::nat) \<and>
      ([[], []] :: ForwardingInfo list list) ! 1 = []"
    by blast
  have dB: "detectHazards ?B (map parseInstruction ?B) True =
      Inr ([noHazard, ?raw], [[], [?edge]], [0, 0])"
    unfolding usage_jal_jr by (simp add: hazard_eval)
  have lenB: "length ?B \<le> length (map parseInstruction ?B)" by simp
  from jump_and_first_have_no_hazard [OF lenB, of 1 True] obtain hz' fw' st' where
    dB': "detectHazards ?B (map parseInstruction ?B) True = Inr (hz', fw', st')" and
    cB': "\<forall>e \<in> set (fw' ! 1). 1 - 2 \<le> fromIndex e \<and> fromIndex e < 1 \<and>
      rd (map parseInstruction ?B ! fromIndex e) \<noteq> 0"
    by auto
  from dB dB' have "fw' = [[], [?edge]]" by simp
  with cB' have cB: "rd (map parseInstruction ?B ! 0) \<noteq> 0" by simp
  have sB: "rs (map parseInstruction ?B ! 1) = rd (map parseInstruction ?B ! 0)"
    unfolding usage_jal_jr by simp
  from dA tA cA dB cB sB show ?thesis by blast
qed

text \<open>
  An instruction of kind J can be the source of a hazard: \<open>0c000000\<close> (jal) writes
  register 31, and \<open>03e00008\<close> (jr \<open>$31\<close>) after it gets a RAW hazard that depends on
  instruction 0, with two stall cycles.
\<close>

theorem jal_is_hazard_source_counterexample:
  "type (parseInstruction 0x0c000000) = J \<and>
   detectHazards [0x0c000000, 0x03e00008] (map parseInstruction [0x0c000000, 0x03e00008]) False =
     Inr ([noHazard,
           \<lparr>hazardType = RAW, description = ''rs($31) depends on instruction 0'',
            canForward = False, stallCycles = 2\<rparr>],
          [[], []], [0, 2])"
proof -
  have "detectHazards [0x0c000000, 0x03e00008] (map parseInstruction [0x0c000000, 0x03e00008])
      False =
     Inr ([noHazard,
           \<lparr>hazardType = RAW, description = ''rs($31) depends on instruction 0'',
            canForward = False, stallCycles = 2\<rparr>],
          [[], []], [0, 2])"
    unfolding usage_jal_jr by (simp add: hazard_eval)
  then show ?thesis using usage_jal_jr by simp
qed

section \<open>WAW hazards\<close>

lemma waw_entry:
  assumes "detectHazards ins usage fwd = Inr (hz, fw, st)"
    and "1 \<le> i" and "i < length ins"
    and "type (usage ! i) \<noteq> J"
    and "rawMatches usage i = []"
  shows "(rd (usage ! i) \<noteq> 0 \<and> (\<exists>j \<in> set [i - 2..<i]. rd (usage ! j) = rd (usage ! i)) \<longrightarrow>
            hz ! i = \<lparr>hazardType = WAW,
              description = ''Both instructions write to $'' @ toStringRadix 10 (rd (usage ! i)),
              canForward = True, stallCycles = 0\<rparr>) \<and>
         (\<not> (rd (usage ! i) \<noteq> 0 \<and> (\<exists>j \<in> set [i - 2..<i]. rd (usage ! j) = rd (usage ! i))) \<longrightarrow>
            hz ! i = noHazard) \<and>
         st ! i = 0 \<and> fw ! i = []"
proof -
  from detectHazards_entry [OF assms(1-3)] obtain hz0 fw0 st0 hz1 fw1 st1 where
    step: "hazardStep usage fwd i (hz0, fw0, st0) = (hz1, fw1, st1)" and
    len: "i < length hz0" "i < length fw0" "i < length st0" and
    init: "hz0 ! i = noHazard" "fw0 ! i = []" "st0 ! i = 0" and
    res: "hz ! i = hz1 ! i" "fw ! i = fw1 ! i" "st ! i = st1 ! i"
    by blast
  define found where
    "found \<longleftrightarrow> rd (usage ! i) \<noteq> 0 \<and> (\<exists>j \<in> set [i - 2..<i]. rd (usage ! j) = rd (usage ! i))"
  have "(rd (usage ! i) \<noteq> 0 \<and> (\<exists>j \<in> set [i - 2..<i]. wawMatch usage i j)) = found"
    unfolding wawMatch_def found_def by (metis (no_types, lifting))
  with step have "(if found then hz0[i := wawHazard (rd (usage ! i))] else hz0, fw0, st0) =
      (hz1, fw1, st1)"
    by (simp only: hazardStep_no_raw [OF assms(4,5)])
  with len init res show ?thesis
    unfolding found_def [symmetric]
    by (cases found) (auto simp: wawHazard_def)
qed

text \<open>
  Claim C5. Given the register usage of every instruction, the analyzer returns its
  tables. For an instruction at index \<open>i \<ge> 1\<close>, not of kind J and with no RAW match:
  when its destination register is nonzero and an instruction at distance 1 or 2 has the
  same destination register, its hazard record is WAW with \<open>canForward\<close> true and no
  stall cycles; otherwise (no RAW and no WAW match) its record is the one of "no hazard".
  In both cases it has no stall and no forwarding edge. (\<open>wawScan\<close> returns at the first
  instruction that matches; whichever instruction matches, the record is the same.)
\<close>

theorem waw_hazard:
  assumes "length ins \<le> length usage"
    and "1 \<le> i" and "i < length ins"
    and "type (usage ! i) \<noteq> J"
    and "rawMatches usage i = []"
  shows "\<exists>hz fw st. detectHazards ins usage fwd = Inr (hz, fw, st) \<and>
         (rd (usage ! i) \<noteq> 0 \<and> (\<exists>j \<in> set [i - 2..<i]. rd (usage ! j) = rd (usage ! i)) \<longrightarrow>
            hz ! i = \<lparr>hazardType = WAW,
              description = ''Both instructions write to $'' @ toStringRadix 10 (rd (usage ! i)),
              canForward = True, stallCycles = 0\<rparr>) \<and>
         (\<not> (rd (usage ! i) \<noteq> 0 \<and> (\<exists>j \<in> set [i - 2..<i]. rd (usage ! j) = rd (usage ! i))) \<longrightarrow>
            hz ! i = noHazard) \<and>
         st ! i = 0 \<and> fw ! i = []"
proof -
  from detectHazards_total [OF assms(1)] obtain hz fw st where
    d: "detectHazards ins usage fwd = Inr (hz, fw, st)"
    by blast
  from waw_entry [OF d assms(2-5)] d show ?thesis by blast
qed

text \<open>
  Twice the same addition gives a WAW hazard on register 7; two additions that write
  registers 7 and 8 give no hazard.
\<close>

theorem waw_hazard_witness:
  "detectHazards [0x00a63820, 0x00a63820] (map parseInstruction [0x00a63820, 0x00a63820]) True =
     Inr ([noHazard,
           \<lparr>hazardType = WAW, description = ''Both instructions write to $7'',
            canForward = True, stallCycles = 0\<rparr>],
          [[], []], [0, 0]) \<and>
   rawMatches (map parseInstruction [0x00a63820, 0x00a63820]) 1 = [] \<and>
   rd (map parseInstruction [0x00a63820, 0x00a63820] ! 0) =
     rd (map parseInstruction [0x00a63820, 0x00a63820] ! 1) \<and>
   ''Both instructions write to $'' @
     toStringRadix 10 (rd (map parseInstruction [0x00a63820, 0x00a63820] ! 1)) =
     ''Both instructions write to $7'' \<and>
   detectHazards [0x00a63820, 0x00a64020] (map parseInstruction [0x00a63820, 0x00a64020]) True =
     Inr ([noHazard, noHazard], [[], []], [0, 0]) \<and>
   rawMatches (map parseInstruction [0x00a63820, 0x00a64020]) 1 = [] \<and>
   rd (map parseInstruction [0x00a63820, 0x00a64020] ! 0) \<noteq>
     rd (map parseInstruction [0x00a63820, 0x00a64020] ! 1)"
proof -
  let ?A = "[0x00a63820, 0x00a63820] :: instr list"
  let ?B = "[0x00a63820, 0x00a64020] :: instr list"
  let ?waw = "\<lparr>hazardType = WAW, description = ''Both instructions write to $7'',
            canForward = True, stallCycles = 0\<rparr>"
  have dA: "detectHazards ?A (map parseInstruction ?A) True =
      Inr ([noHazard, ?waw], [[], []], [0, 0])"
    unfolding usage_add_add by (simp add: hazard_eval)
  have tA: "type (map parseInstruction ?A ! 1) \<noteq> J"
    unfolding usage_add_add by simp
  have mA: "rawMatches (map parseInstruction ?A) 1 = []"
    unfolding usage_add_add by (simp add: rawMatches_def matchesAt_def)
  have rA: "rd (map parseInstruction ?A ! 0) = rd (map parseInstruction ?A ! 1)"
    unfolding usage_add_add by simp
  have nzA: "rd (map parseInstruction ?A ! 1) \<noteq> 0"
    unfolding usage_add_add by simp
  have "\<exists>j \<in> set [1 - 2..<1]. rd (map parseInstruction ?A ! j) = rd (map parseInstruction ?A ! 1)"
    using rA by simp
  then have found: "rd (map parseInstruction ?A ! 1) \<noteq> 0 \<and>
      (\<exists>j \<in> set [1 - 2..<1]. rd (map parseInstruction ?A ! j) = rd (map parseInstruction ?A ! 1))"
    using nzA by blast
  have len: "length ?A \<le> length (map parseInstruction ?A)" by simp
  from waw_hazard [OF len _ _ tA mA, of True] obtain hz fw st where
    d': "detectHazards ?A (map parseInstruction ?A) True = Inr (hz, fw, st)" and
    c': "rd (map parseInstruction ?A ! 1) \<noteq> 0 \<and>
      (\<exists>j \<in> set [1 - 2..<1]. rd (map parseInstruction ?A ! j) = rd (map parseInstruction ?A ! 1)) \<longrightarrow>
      hz ! 1 = \<lparr>hazardType = WAW,
        description = ''Both instructions write to $'' @
          toStringRadix 10 (rd (map parseInstruction ?A ! 1)),
        canForward = True, stallCycles = 0\<rparr>"
    by auto
  from dA d' have "hz = [noHazard, ?waw]" by simp
  with c' found
  have "[noHazard, ?waw] ! 1 = \<lparr>hazardType = WAW,
      description = ''Both instructions write to $'' @
        toStringRadix 10 (rd (map parseInstruction ?A ! 1)),
      canForward = True, stallCycles = 0\<rparr>"
    by blast
  then have "''Both instructions write to $7'' = ''Both instructions write to $'' @
      toStringRadix 10 (rd (map parseInstruction ?A ! 1))"
    by simp
  then have sA: "''Both instructions write to $'' @
      toStringRadix 10 (rd (map parseInstruction ?A ! 1)) = ''Both instructions write to $7''"
    by (rule sym)
  have dB: "detectHazards ?B (map parseInstruction ?B) True =
      Inr ([noHazard, noHazard], [[], []], [0, 0])"
    unfolding usage_add5_add6 by (simp add: hazard_eval)
  have mB: "rawMatches (map parseInstruction ?B) 1 = []"
    unfolding usage_add5_add6 by (simp add: rawMatches_def matchesAt_def)
  have rB: "rd (map parseInstruction ?B ! 0) \<noteq> rd (map parseInstruction ?B ! 1)"
    unfolding usage_add5_add6 by simp
  from dA mA rA sA dB mB rB show ?thesis by blast
qed

section \<open>The stage index and the stalls before an instruction\<close>

lemma calculatePrecedingStalls_sum:
  "calculatePrecedingStalls stallTable k = sum_list (take k stallTable)"
proof (induction k)
  case 0
  show ?case by (simp add: calculatePrecedingStalls_def)
next
  case (Suc k)
  have "calculatePrecedingStalls stallTable (Suc k) =
      calculatePrecedingStalls stallTable k +
        (if k < length stallTable then stallTable ! k else 0)"
    by (simp add: calculatePrecedingStalls_def)
  with Suc show ?case
    by (simp add: take_Suc_conv_app_nth)
qed

lemma sum_list_take_le: "sum_list (take k xs) \<le> sum_list (xs :: nat list)"
proof -
  have "sum_list xs = sum_list (take k xs) + sum_list (drop k xs)"
    by (metis append_take_drop_id sum_list.append)
  then show ?thesis by simp
qed

lemma preceding_plus_own:
  assumes "k < length stallTable"
  shows "calculatePrecedingStalls stallTable k + stallTable ! k \<le> sum_list stallTable"
proof -
  have "calculatePrecedingStalls stallTable k + stallTable ! k =
      sum_list (take (Suc k) stallTable)"
    using assms by (simp add: calculatePrecedingStalls_sum take_Suc_conv_app_nth)
  then show ?thesis by (simp only: sum_list_take_le)
qed

lemma calculatePrecedingStalls_mono:
  assumes "i \<le> j"
  shows "calculatePrecedingStalls stallTable i \<le> calculatePrecedingStalls stallTable j"
proof -
  have "take i stallTable = take i (take j stallTable)"
    using assms by (simp add: min_absorb1)
  then show ?thesis
    unfolding calculatePrecedingStalls_sum
    by (metis sum_list_take_le)
qed

lemma stageIndexOf_decreasing:
  assumes "i < j"
  shows "stageIndexOf stallTable c j < stageIndexOf stallTable c i"
  using assms calculatePrecedingStalls_mono [of i j stallTable]
  by (simp add: stageIndexOf_def)

lemma stageStep_eq:
  "stageStep s c k (stages, r) =
     (stages @ [stageAt s c k],
      if stageIndexOf (stalls s) c k = 1 \<and> 0 \<le> stageIndexOf (stalls s) c k \<and>
         stageIndexOf (stalls s) c k < int (stageCount s) \<and>
         k < length (stalls s) \<and> 0 < stalls s ! k \<and> r = 0
      then stalls s ! k else r)"
  by (simp add: stageStep_def stageAt_def stageIndexOf_def Let_def)

lemma fold_stageStep_stages:
  "fst (fold (stageStep s c) [0..<n] (stages, r)) = stages @ map (stageAt s c) [0..<n]"
proof (induction n)
  case 0
  show ?case by simp
next
  case (Suc n)
  obtain xs r' where f: "fold (stageStep s c) [0..<n] (stages, r) = (xs, r')"
    by (cases "fold (stageStep s c) [0..<n] (stages, r)") auto
  with Suc show ?case by (simp add: stageStep_eq)
qed

lemma fold_stageStep_stall:
  "snd (fold (stageStep s c) [0..<n] (stages, 0)) = 0 \<or>
   (\<exists>k < n. k < length (stalls s) \<and> stageIndexOf (stalls s) c k = 1 \<and>
      snd (fold (stageStep s c) [0..<n] (stages, 0)) = stalls s ! k)"
proof (induction n)
  case 0
  show ?case by simp
next
  case (Suc n)
  obtain xs r' where f: "fold (stageStep s c) [0..<n] (stages, 0) = (xs, r')"
    by (cases "fold (stageStep s c) [0..<n] (stages, 0)") auto
  with Suc show ?case
    by (auto simp: stageStep_eq less_Suc_eq)
qed

lemma noSharedStage_map_stageAt: "noSharedStage (map (stageAt s c) [0..<n])"
proof -
  have less: "stageAt s c i \<noteq> stageAt s c j"
    if "i < j" "stageAt s c i \<noteq> None \<or> stageAt s c j \<noteq> None" for i j
    using stageIndexOf_decreasing [OF that(1), of "stalls s" c] that(2)
    by (auto simp: stageAt_def split: if_splits)
  have neq: "stageAt s c i \<noteq> stageAt s c j" if "i \<noteq> j" "stageAt s c i \<noteq> None" for i j
  proof (cases "i < j")
    case True
    with less [of i j] that(2) show ?thesis by simp
  next
    case False
    with that(1) have "j < i" by simp
    with less [of j i] that(2) show ?thesis by metis
  qed
  show ?thesis
    unfolding noSharedStage_def
  proof (intro allI impI)
    fix i j
    assume "i < length (map (stageAt s c) [0..<n]) \<and> j < length (map (stageAt s c) [0..<n]) \<and>
      i \<noteq> j \<and> map (stageAt s c) [0..<n] ! i \<noteq> None"
    then have a: "i < n" "j < n" "i \<noteq> j" "map (stageAt s c) [0..<n] ! i \<noteq> None"
      by auto
    from a(1,2) have nth: "map (stageAt s c) [0..<n] ! i = stageAt s c i"
      "map (stageAt s c) [0..<n] ! j = stageAt s c j"
      by simp_all
    from a(3,4) neq [of i j] show "map (stageAt s c) [0..<n] ! i \<noteq> map (stageAt s c) [0..<n] ! j"
      unfolding nth by simp
  qed
qed

section \<open>The three cases of a tick\<close>

lemma calculateNextState_idle:
  "\<not> isRunning s \<or> isFinished s \<Longrightarrow> calculateNextState s = s"
  by (simp add: calculateNextState_def)

lemma calculateNextState_stalled:
  assumes "isRunning s" and "\<not> isFinished s" and "0 < currentStallCycles s"
  shows "calculateNextState s =
     s\<lparr>currentCycle := currentCycle s + 1, currentStallCycles := currentStallCycles s - 1\<rparr>"
  using assms by (simp add: calculateNextState_def Let_def)

lemma calculateNextState_advance:
  assumes "isRunning s" and "\<not> isFinished s" and "currentStallCycles s = 0"
  shows "\<exists>r. (r = 0 \<or>
            (\<exists>k < length (instructions s). k < length (stalls s) \<and>
               stageIndexOf (stalls s) (currentCycle s + 1) k = 1 \<and> r = stalls s ! k)) \<and>
          calculateNextState s =
            s\<lparr>currentCycle := (if completionCycle s < currentCycle s + 1
                                then completionCycle s else currentCycle s + 1),
              instructionStages :=
                map (stageAt s (currentCycle s + 1)) [0..<length (instructions s)],
              isRunning := \<not> completionCycle s < currentCycle s + 1,
              isFinished := completionCycle s < currentCycle s + 1,
              currentStallCycles := r\<rparr>"
proof -
  let ?c = "currentCycle s + 1"
  let ?n = "length (instructions s)"
  obtain xs r where f: "fold (stageStep s ?c) [0..<?n] ([], 0) = (xs, r)"
    by (cases "fold (stageStep s ?c) [0..<?n] ([], 0)") auto
  from fold_stageStep_stages [of s ?c ?n "[]" 0] f
  have xs: "xs = map (stageAt s ?c) [0..<?n]" by simp
  from fold_stageStep_stall [of s ?c ?n "[]"] f
  have r: "r = 0 \<or> (\<exists>k < ?n. k < length (stalls s) \<and>
      stageIndexOf (stalls s) ?c k = 1 \<and> r = stalls s ! k)"
    by simp
  have "calculateNextState s =
      s\<lparr>currentCycle := (if completionCycle s < ?c then completionCycle s else ?c),
        instructionStages := map (stageAt s ?c) [0..<?n],
        isRunning := \<not> completionCycle s < ?c,
        isFinished := completionCycle s < ?c,
        currentStallCycles := r\<rparr>"
    using assms f xs by (simp add: calculateNextState_def Let_def)
  with r show ?thesis by blast
qed

lemma completionCycle_update:
  "completionCycle (s\<lparr>isRunning := b\<rparr>) = completionCycle s"
  "completionCycle (s\<lparr>isFinished := b\<rparr>) = completionCycle s"
  "completionCycle (s\<lparr>currentCycle := c\<rparr>) = completionCycle s"
  "completionCycle (s\<lparr>instructionStages := xs\<rparr>) = completionCycle s"
  "completionCycle (s\<lparr>currentStallCycles := r\<rparr>) = completionCycle s"
  "completionCycle (s\<lparr>forwardingEnabled := b\<rparr>) = completionCycle s"
  by (simp_all add: completionCycle_def)

lemma stall_fits:
  assumes "k < length (instructions s)" and "k < length (stalls s)"
    and "stageIndexOf (stalls s) c k = 1" and "2 \<le> stageCount s"
  shows "c + stalls s ! k \<le> completionCycle s"
proof -
  from assms(3) have "int c = int k + 2 + int (calculatePrecedingStalls (stalls s) k)"
    by (simp add: stageIndexOf_def)
  then have c: "c = k + 2 + calculatePrecedingStalls (stalls s) k" by linarith
  from assms(1) have "instructions s \<noteq> []" by auto
  then have "completionCycle s =
      length (instructions s) + stageCount s - 1 + sum_list (stalls s)"
    by (simp add: completionCycle_def)
  with c preceding_plus_own [OF assms(2)] assms(1,4) show ?thesis
    by linarith
qed

section \<open>The invariant of the controller\<close>

lemma noSharedStage_initial:
  "noSharedStage (map (\<lambda>index. let stageIndex = 1 - int index - 1
        in if 0 \<le> stageIndex \<and> stageIndex < int DEFAULT_STAGE_COUNT
           then Some (nat stageIndex) else None) [0..<n])"
  unfolding noSharedStage_def by (auto simp: Let_def)

lemma startSimulation_result:
  assumes "ws \<noteq> []"
  shows "\<exists>hz fw st.
     detectHazards ws (map parseInstruction ws) (forwardingEnabled s) = Inr (hz, fw, st) \<and>
     startSimulation s ws = Inr
       \<lparr>instructions = ws, currentCycle = 1,
        maxCycles = length ws + DEFAULT_STAGE_COUNT - 1 + sum_list st, isRunning = True,
        stageCount = DEFAULT_STAGE_COUNT,
        instructionStages =
          map (\<lambda>index. let stageIndex = 1 - int index - 1
                 in if 0 \<le> stageIndex \<and> stageIndex < int DEFAULT_STAGE_COUNT
                    then Some (nat stageIndex) else None) [0..<length ws],
        isFinished = False, registerUsage = map parseInstruction ws, hazards = hz,
        forwardings = fw, stalls = st, currentStallCycles = 0,
        forwardingEnabled = forwardingEnabled s\<rparr>"
proof -
  from detectHazards_total [of ws "map parseInstruction ws" "forwardingEnabled s"]
  obtain hz fw st where
    "detectHazards ws (map parseInstruction ws) (forwardingEnabled s) = Inr (hz, fw, st)"
    by auto
  with assms show ?thesis
    by (simp add: startSimulation_def Let_def)
qed

lemma stage_count: "DEFAULT_STAGE_COUNT = 5"
  by (simp add: DEFAULT_STAGE_COUNT_def STAGE_NAMES_def)

lemma invariant_initialState: "invariant initialState"
  by (simp add: invariant_def initialState_def completionCycle_def noSharedStage_def
      detectHazards_def)

lemma invariant_reset: "invariant (resetSimulation s)"
  by (simp add: invariant_def resetSimulation_def initialState_def completionCycle_def
      noSharedStage_def detectHazards_def)

lemma invariant_start: "invariant (apply_event (Start ws) s)"
proof (cases "ws = []")
  case True
  then show ?thesis
    using invariant_reset [of s] by (simp add: startSimulation_def)
next
  case False
  from startSimulation_result [OF False, of s] obtain hz fw st where
    d: "detectHazards ws (map parseInstruction ws) (forwardingEnabled s) = Inr (hz, fw, st)" and
    s: "startSimulation s ws = Inr
       \<lparr>instructions = ws, currentCycle = 1,
        maxCycles = length ws + DEFAULT_STAGE_COUNT - 1 + sum_list st, isRunning = True,
        stageCount = DEFAULT_STAGE_COUNT,
        instructionStages =
          map (\<lambda>index. let stageIndex = 1 - int index - 1
                 in if 0 \<le> stageIndex \<and> stageIndex < int DEFAULT_STAGE_COUNT
                    then Some (nat stageIndex) else None) [0..<length ws],
        isFinished = False, registerUsage = map parseInstruction ws, hazards = hz,
        forwardings = fw, stalls = st, currentStallCycles = 0,
        forwardingEnabled = forwardingEnabled s\<rparr>"
    by blast
  have "\<exists>fwd. detectHazards ws (map parseInstruction ws) fwd = Inr (hz, fw, st)"
    using d by blast
  with False noSharedStage_initial [of "length ws"] show ?thesis
    by (simp add: s invariant_def completionCycle_def stage_count)
qed

lemma invariant_pause: "invariant s \<Longrightarrow> invariant (pauseSimulation s)"
  by (auto simp: invariant_def pauseSimulation_def completionCycle_update)

lemma invariant_resume: "invariant s \<Longrightarrow> invariant (resumeSimulation s)"
  by (auto simp: invariant_def resumeSimulation_def completionCycle_update)

lemma invariant_setForwarding: "invariant s \<Longrightarrow> invariant (setForwardingEnabled b s)"
  by (auto simp: invariant_def setForwardingEnabled_def completionCycle_update)

lemma invariant_tick:
  assumes "invariant s"
  shows "invariant (calculateNextState s)"
proof (cases "\<not> isRunning s \<or> isFinished s")
  case True
  with assms show ?thesis by (simp add: calculateNextState_idle)
next
  case False
  then have run: "isRunning s" "\<not> isFinished s" by simp_all
  show ?thesis
  proof (cases "0 < currentStallCycles s")
    case True
    with assms run show ?thesis
      by (auto simp: calculateNextState_stalled [OF run True] invariant_def
          completionCycle_update)
  next
    case False
    then have zero: "currentStallCycles s = 0" by simp
    from calculateNextState_advance [OF run zero] obtain r where
      r: "r = 0 \<or> (\<exists>k < length (instructions s). k < length (stalls s) \<and>
            stageIndexOf (stalls s) (currentCycle s + 1) k = 1 \<and> r = stalls s ! k)" and
      nxt: "calculateNextState s =
            s\<lparr>currentCycle := (if completionCycle s < currentCycle s + 1
                                then completionCycle s else currentCycle s + 1),
              instructionStages :=
                map (stageAt s (currentCycle s + 1)) [0..<length (instructions s)],
              isRunning := \<not> completionCycle s < currentCycle s + 1,
              isFinished := completionCycle s < currentCycle s + 1,
              currentStallCycles := r\<rparr>"
      by blast
    from assms have two: "2 \<le> stageCount s" by (simp add: invariant_def stage_count)
    from r two have fits: "currentCycle s + 1 + r \<le> completionCycle s"
      if "\<not> completionCycle s < currentCycle s + 1"
      using that stall_fits [of _ s "currentCycle s + 1"] by auto
    from assms run have nonempty: "instructions s \<noteq> []" by (auto simp: invariant_def)
    have same: "completionCycle (calculateNextState s) = completionCycle s"
      by (simp add: nxt completionCycle_update)
    from assms fits nonempty show ?thesis
      unfolding invariant_def same
      by (auto simp: nxt noSharedStage_map_stageAt)
  qed
qed

lemma invariant_apply_event: "invariant s \<Longrightarrow> invariant (apply_event e s)"
  using invariant_start [of _ s]
  by (cases e)
    (simp_all add: invariant_reset invariant_pause invariant_resume invariant_setForwarding
      invariant_tick del: apply_event.simps(1))

lemma run_snoc: "run (events @ [e]) = apply_event e (run events)"
  by (simp add: run_def)

lemma invariant_run: "invariant (run events)"
proof (induction events rule: rev_induct)
  case Nil
  show ?case by (simp add: run_def invariant_initialState)
next
  case (snoc e events)
  then show ?case by (simp only: run_snoc invariant_apply_event)
qed

section \<open>Evaluation of runs\<close>

lemmas run_eval = run_def startSimulation_def calculateNextState_def stageStep_def
  calculatePrecedingStalls_def completionCycle_def setForwardingEnabled_def initialState_def
  DEFAULT_STAGE_COUNT_def STAGE_NAMES_def

lemma run_single:
  "run [Start [0x00a63820], Tick, Tick, Tick, Tick] =
     \<lparr>instructions = [0x00a63820], currentCycle = 5, maxCycles = 5, isRunning = True,
      stageCount = 5, instructionStages = [Some 4], isFinished = False,
      registerUsage = [\<lparr>rs = 5, rt = 6, rd = 7, opcode = 0, funct = 32, type = R\<rparr>],
      hazards = [noHazard], forwardings = [[]], stalls = [0], currentStallCycles = 0,
      forwardingEnabled = True\<rparr>"
  by (simp add: run_eval hazard_eval parseInstruction_bits bits_def upt_rec)

lemma run_stalled:
  "run [SetForwarding False, Start [0x00a63820, 0x00e84820], Tick, Tick] =
     \<lparr>instructions = [0x00a63820, 0x00e84820], currentCycle = 3, maxCycles = 8,
      isRunning = True, stageCount = 5, instructionStages = [Some 2, Some 1],
      isFinished = False,
      registerUsage = [\<lparr>rs = 5, rt = 6, rd = 7, opcode = 0, funct = 32, type = R\<rparr>,
        \<lparr>rs = 7, rt = 8, rd = 9, opcode = 0, funct = 32, type = R\<rparr>],
      hazards = [noHazard,
        \<lparr>hazardType = RAW, description = ''rs($7) depends on instruction 0'',
         canForward = False, stallCycles = 2\<rparr>],
      forwardings = [[], []], stalls = [0, 2], currentStallCycles = 2,
      forwardingEnabled = False\<rparr>"
  by (simp add: run_eval hazard_eval parseInstruction_bits bits_def upt_rec)

lemma run_pair:
  "run [Start [0x00a63820, 0x00a64020], Tick] =
     \<lparr>instructions = [0x00a63820, 0x00a64020], currentCycle = 2, maxCycles = 6,
      isRunning = True, stageCount = 5, instructionStages = [Some 1, Some 0],
      isFinished = False,
      registerUsage = [\<lparr>rs = 5, rt = 6, rd = 7, opcode = 0, funct = 32, type = R\<rparr>,
        \<lparr>rs = 5, rt = 6, rd = 8, opcode = 0, funct = 32, type = R\<rparr>],
      hazards = [noHazard, noHazard], forwardings = [[], []], stalls = [0, 0],
      currentStallCycles = 0, forwardingEnabled = True\<rparr>"
  by (simp add: run_eval hazard_eval parseInstruction_bits bits_def upt_rec)

lemma run_paused:
  "run [Start [0x00a63820], Tick, Tick, Tick, Tick, Pause] =
     \<lparr>instructions = [0x00a63820], currentCycle = 5, maxCycles = 5, isRunning = False,
      stageCount = 5, instructionStages = [Some 4], isFinished = False,
      registerUsage = [\<lparr>rs = 5, rt = 6, rd = 7, opcode = 0, funct = 32, type = R\<rparr>],
      hazards = [noHazard], forwardings = [[]], stalls = [0], currentStallCycles = 0,
      forwardingEnabled = True\<rparr>"
  by (simp add: run_eval pauseSimulation_def hazard_eval parseInstruction_bits bits_def upt_rec)

section \<open>Completion\<close>

text \<open>
  Claim C6, amended. In a started run whose state \<open>s\<close> is running and unfinished (the
  states in which \<open>calculateNextState\<close> acts), \<open>calculateNextState\<close> marks the run
  finished exactly when the next cycle \<open>currentCycle s + 1\<close> exceeds
  \<open>completionCycle s\<close>, which is the number of instructions plus \<open>stageCount - 1\<close> plus
  the sum of all stall counts (so the sum of the stall counts is what remains of the
  completion cycle when the number of instructions and \<open>stageCount - 1\<close> are taken
  off); it is the value \<open>maxCycles\<close> computed at the start, from the stall table that the
  analyzer returned. On finishing, the cycle reported is \<open>completionCycle s\<close> and the
  running flag is cleared.
\<close>

theorem finished_after_completionCycle:
  assumes "s = run events" and "isRunning s" and "\<not> isFinished s"
  shows "isFinished (calculateNextState s) = (completionCycle s < currentCycle s + 1) \<and>
         (isFinished (calculateNextState s) \<longrightarrow>
            currentCycle (calculateNextState s) = completionCycle s \<and>
            \<not> isRunning (calculateNextState s)) \<and>
         completionCycle s =
           length (instructions s) + stageCount s - 1 + sum_list (stalls s) \<and>
         sum_list (stalls s) =
           completionCycle s - (length (instructions s) + stageCount s - 1) \<and>
         maxCycles s = completionCycle s \<and>
         (\<exists>fwd. detectHazards (instructions s) (registerUsage s) fwd =
            Inr (hazards s, forwardings s, stalls s))"
proof -
  from assms(1) have inv: "invariant s" by (simp add: invariant_run)
  with assms(2) have nonempty: "instructions s \<noteq> []" by (auto simp: invariant_def)
  then have completion: "completionCycle s =
      length (instructions s) + stageCount s - 1 + sum_list (stalls s)"
    by (simp add: completionCycle_def)
  have step: "isFinished (calculateNextState s) = (completionCycle s < currentCycle s + 1) \<and>
      (isFinished (calculateNextState s) \<longrightarrow>
         currentCycle (calculateNextState s) = completionCycle s \<and>
         \<not> isRunning (calculateNextState s))"
  proof (cases "0 < currentStallCycles s")
    case True
    from inv assms(3) True have "currentCycle s + 1 \<le> completionCycle s"
      by (simp add: invariant_def)
    with assms(3) show ?thesis
      by (simp add: calculateNextState_stalled [OF assms(2,3) True])
  next
    case False
    then have "currentStallCycles s = 0" by simp
    from calculateNextState_advance [OF assms(2,3) this] show ?thesis by auto
  qed
  from inv have "maxCycles s = completionCycle s"
    and "\<exists>fwd. detectHazards (instructions s) (registerUsage s) fwd =
            Inr (hazards s, forwardings s, stalls s)"
    by (simp_all add: invariant_def)
  with step completion show ?thesis by simp
qed

text \<open>
  A single addition: after four ticks the run is in cycle 5, its completion cycle, and the
  fifth tick finishes it.
\<close>

theorem finished_after_completionCycle_witness:
  "isRunning (run [Start [0x00a63820], Tick, Tick, Tick, Tick]) \<and>
   \<not> isFinished (run [Start [0x00a63820], Tick, Tick, Tick, Tick]) \<and>
   currentCycle (run [Start [0x00a63820], Tick, Tick, Tick, Tick]) = 5 \<and>
   completionCycle (run [Start [0x00a63820], Tick, Tick, Tick, Tick]) = 5 \<and>
   isFinished (calculateNextState (run [Start [0x00a63820], Tick, Tick, Tick, Tick])) \<and>
   currentCycle (calculateNextState (run [Start [0x00a63820], Tick, Tick, Tick, Tick])) = 5 \<and>
   \<not> isRunning (calculateNextState (run [Start [0x00a63820], Tick, Tick, Tick, Tick]))"
proof -
  let ?s = "run [Start [0x00a63820], Tick, Tick, Tick, Tick]"
  have r: "isRunning ?s" and f: "\<not> isFinished ?s" and c: "currentCycle ?s = 5"
    by (simp_all add: run_single)
  have m: "completionCycle ?s = 5"
    by (simp add: run_single completionCycle_def)
  from finished_after_completionCycle [OF refl r f] c m
  have "isFinished (calculateNextState ?s) \<and> currentCycle (calculateNextState ?s) = 5 \<and>
      \<not> isRunning (calculateNextState ?s)"
    by simp
  with r f c m show ?thesis by blast
qed

text \<open>
  The claim as it is stated speaks of every started run, and a paused run is a started run
  (\<open>currentCycle > 0\<close>). A single addition, paused in cycle 5, its completion cycle: the
  next cycle would exceed the completion cycle, and yet \<open>calculateNextState\<close>, which
  returns a state that is not running as it is, does not mark the run finished.
\<close>

theorem paused_run_not_finished_counterexample:
  "0 < currentCycle (run [Start [0x00a63820], Tick, Tick, Tick, Tick, Pause]) \<and>
   \<not> isRunning (run [Start [0x00a63820], Tick, Tick, Tick, Tick, Pause]) \<and>
   \<not> isFinished (run [Start [0x00a63820], Tick, Tick, Tick, Tick, Pause]) \<and>
   currentCycle (run [Start [0x00a63820], Tick, Tick, Tick, Tick, Pause]) = 5 \<and>
   completionCycle (run [Start [0x00a63820], Tick, Tick, Tick, Tick, Pause]) = 5 \<and>
   completionCycle (run [Start [0x00a63820], Tick, Tick, Tick, Tick, Pause]) <
     currentCycle (run [Start [0x00a63820], Tick, Tick, Tick, Tick, Pause]) + 1 \<and>
   \<not> isFinished
     (calculateNextState (run [Start [0x00a63820], Tick, Tick, Tick, Tick, Pause])) \<and>
   calculateNextState (run [Start [0x00a63820], Tick, Tick, Tick, Tick, Pause]) =
     run [Start [0x00a63820], Tick, Tick, Tick, Tick, Pause]"
proof -
  let ?s = "run [Start [0x00a63820], Tick, Tick, Tick, Tick, Pause]"
  have r: "\<not> isRunning ?s" and f: "\<not> isFinished ?s" and c: "currentCycle ?s = 5"
    by (simp_all add: run_paused)
  have m: "completionCycle ?s = 5"
    by (simp add: run_paused completionCycle_def)
  from r have same: "calculateNextState ?s = ?s"
    by (simp add: calculateNextState_idle)
  from f same have f': "\<not> isFinished (calculateNextState ?s)" by simp
  from c have pos: "0 < currentCycle ?s" by simp
  from c m have over: "completionCycle ?s < currentCycle ?s + 1" by simp
  from pos r f c m over f' same show ?thesis by blast
qed

section \<open>A tick during a stall\<close>

text \<open>
  Claim C7. In a running, unfinished state with \<open>currentStallCycles > 0\<close>,
  \<open>calculateNextState\<close> decrements \<open>currentStallCycles\<close> by 1, increments
  \<open>currentCycle\<close> by 1 and changes no other field; in particular the stage mapping stays.
\<close>

theorem stalled_tick_frame:
  assumes "isRunning s" and "\<not> isFinished s" and "0 < currentStallCycles s"
  shows "calculateNextState s =
           s\<lparr>currentCycle := currentCycle s + 1,
             currentStallCycles := currentStallCycles s - 1\<rparr> \<and>
         currentStallCycles (calculateNextState s) = currentStallCycles s - 1 \<and>
         currentCycle (calculateNextState s) = currentCycle s + 1 \<and>
         instructionStages (calculateNextState s) = instructionStages s"
  by (simp add: calculateNextState_stalled [OF assms])

text \<open>
  Without forwarding, an addition that reads the result of the addition before it stalls
  for two cycles from cycle 3 on.
\<close>

theorem stalled_tick_frame_witness:
  "isRunning (run [SetForwarding False, Start [0x00a63820, 0x00e84820], Tick, Tick]) \<and>
   \<not> isFinished (run [SetForwarding False, Start [0x00a63820, 0x00e84820], Tick, Tick]) \<and>
   currentStallCycles (run [SetForwarding False, Start [0x00a63820, 0x00e84820], Tick, Tick]) =
     2 \<and>
   currentCycle (run [SetForwarding False, Start [0x00a63820, 0x00e84820], Tick, Tick]) = 3 \<and>
   currentStallCycles (calculateNextState
     (run [SetForwarding False, Start [0x00a63820, 0x00e84820], Tick, Tick])) = 1 \<and>
   currentCycle (calculateNextState
     (run [SetForwarding False, Start [0x00a63820, 0x00e84820], Tick, Tick])) = 4 \<and>
   instructionStages (calculateNextState
     (run [SetForwarding False, Start [0x00a63820, 0x00e84820], Tick, Tick])) =
     [Some 2, Some 1]"
proof -
  let ?s = "run [SetForwarding False, Start [0x00a63820, 0x00e84820], Tick, Tick]"
  have r: "isRunning ?s" and f: "\<not> isFinished ?s" and st: "currentStallCycles ?s = 2"
    and c: "currentCycle ?s = 3" and stages: "instructionStages ?s = [Some 2, Some 1]"
    by (simp_all add: run_stalled)
  from st have pos: "0 < currentStallCycles ?s" by simp
  from stalled_tick_frame [OF r f pos] st c stages
  have "currentStallCycles (calculateNextState ?s) = 1 \<and>
      currentCycle (calculateNextState ?s) = 4 \<and>
      instructionStages (calculateNextState ?s) = [Some 2, Some 1]"
    by simp
  with r f st c show ?thesis by blast
qed

section \<open>The cycle counter\<close>

text \<open>
  Claim C8. In every state that the controller reaches, a tick does not decrease
  \<open>currentCycle\<close>, and \<open>currentCycle\<close> is at most \<open>completionCycle\<close> before and after
  the tick (which does not change \<open>completionCycle\<close>), whether or not a stall is active.
  The state after the tick is again a state that the controller reaches, so this holds
  along every sequence of ticks.
\<close>

theorem currentCycle_monotone_bounded:
  assumes "s = run events"
  shows "currentCycle s \<le> currentCycle (calculateNextState s) \<and>
         currentCycle (calculateNextState s) \<le> completionCycle (calculateNextState s) \<and>
         completionCycle (calculateNextState s) = completionCycle s \<and>
         currentCycle s \<le> completionCycle s \<and>
         calculateNextState s = run (events @ [Tick])"
proof -
  from assms have inv: "invariant s" by (simp add: invariant_run)
  then have inv': "invariant (calculateNextState s)" by (rule invariant_tick)
  have same: "completionCycle (calculateNextState s) = completionCycle s"
    by (auto simp: calculateNextState_def completionCycle_update Let_def split: prod.splits)
  have mono: "currentCycle s \<le> currentCycle (calculateNextState s)"
  proof (cases "\<not> isRunning s \<or> isFinished s")
    case True
    then show ?thesis by (simp add: calculateNextState_idle)
  next
    case False
    then have run: "isRunning s" "\<not> isFinished s" by simp_all
    show ?thesis
    proof (cases "0 < currentStallCycles s")
      case True
      then show ?thesis by (simp add: calculateNextState_stalled [OF run True])
    next
      case False
      then have "currentStallCycles s = 0" by simp
      from calculateNextState_advance [OF run this] obtain r where
        "calculateNextState s =
            s\<lparr>currentCycle := (if completionCycle s < currentCycle s + 1
                                then completionCycle s else currentCycle s + 1),
              instructionStages :=
                map (stageAt s (currentCycle s + 1)) [0..<length (instructions s)],
              isRunning := \<not> completionCycle s < currentCycle s + 1,
              isFinished := completionCycle s < currentCycle s + 1,
              currentStallCycles := r\<rparr>"
        by blast
      then have "currentCycle (calculateNextState s) =
          (if completionCycle s < currentCycle s + 1 then completionCycle s
           else currentCycle s + 1)"
        by simp
      with inv show ?thesis by (simp add: invariant_def)
    qed
  qed
  from inv inv' same mono assms show ?thesis
    by (simp add: invariant_def run_snoc)
qed

text \<open>The stalled run above goes from cycle 3 to cycle 4, of 8.\<close>

theorem currentCycle_monotone_bounded_witness:
  "currentCycle (run [SetForwarding False, Start [0x00a63820, 0x00e84820], Tick, Tick]) = 3 \<and>
   currentCycle (calculateNextState
     (run [SetForwarding False, Start [0x00a63820, 0x00e84820], Tick, Tick])) = 4 \<and>
   completionCycle (run [SetForwarding False, Start [0x00a63820, 0x00e84820], Tick, Tick]) = 8 \<and>
   completionCycle (calculateNextState
     (run [SetForwarding False, Start [0x00a63820, 0x00e84820], Tick, Tick])) = 8 \<and>
   currentCycle (run [SetForwarding False, Start [0x00a63820, 0x00e84820], Tick, Tick]) \<le>
     currentCycle (calculateNextState
       (run [SetForwarding False, Start [0x00a63820, 0x00e84820], Tick, Tick])) \<and>
   currentCycle (calculateNextState
     (run [SetForwarding False, Start [0x00a63820, 0x00e84820], Tick, Tick])) \<le>
     completionCycle (calculateNextState
       (run [SetForwarding False, Start [0x00a63820, 0x00e84820], Tick, Tick]))"
proof -
  let ?events = "[SetForwarding False, Start [0x00a63820, 0x00e84820], Tick, Tick]"
  let ?s = "run ?events"
  have c: "currentCycle ?s = 3" by (simp add: run_stalled)
  have m: "completionCycle ?s = 8" by (simp add: run_stalled completionCycle_def)
  have n: "currentCycle (calculateNextState ?s) = 4"
    by (simp add: run_stalled calculateNextState_def)
  from currentCycle_monotone_bounded [OF refl, of ?events]
  have t: "currentCycle ?s \<le> currentCycle (calculateNextState ?s)"
    "currentCycle (calculateNextState ?s) \<le> completionCycle (calculateNextState ?s)"
    "completionCycle (calculateNextState ?s) = completionCycle ?s"
    by blast+
  from t(3) m have m': "completionCycle (calculateNextState ?s) = 8" by (rule trans)
  from c n m m' t(1,2) show ?thesis by blast
qed

section \<open>Calls that change nothing\<close>

text \<open>
  Claim C9. \<open>calculateNextState\<close> returns its argument when the state is not running or
  is finished, and \<open>resumeSimulation\<close> returns its argument when the run is finished or
  was never started (\<open>currentCycle = 0\<close>). Both are total functions: no call faults.
\<close>

theorem idle_calls_change_nothing:
  "(\<not> isRunning s \<or> isFinished s \<longrightarrow> calculateNextState s = s) \<and>
   (isFinished s \<or> currentCycle s = 0 \<longrightarrow> resumeSimulation s = s)"
  by (auto simp: calculateNextState_def resumeSimulation_def)

text \<open>Before any start, a tick and a resume leave the initial state as it is.\<close>

theorem idle_calls_change_nothing_witness:
  "\<not> isRunning initialState \<and> currentCycle initialState = 0 \<and>
   calculateNextState initialState = initialState \<and>
   resumeSimulation initialState = initialState"
proof -
  have a: "\<not> isRunning initialState" and b: "currentCycle initialState = 0"
    by (simp_all add: initialState_def)
  from idle_calls_change_nothing [of initialState] a b show ?thesis by simp
qed

section \<open>One instruction per stage\<close>

text \<open>
  Claim C10. In every state that the controller reaches (by a start followed by ticks, or
  by any other sequence of its events), no two distinct instructions are in the same
  pipeline stage. The mapping that a tick computes outside a stall has the entry
  \<open>stageAt\<close> for every instruction, and the stage index behind it is strictly decreasing
  in the index of the instruction.
\<close>

theorem no_shared_stage:
  assumes "s = run events"
  shows "noSharedStage (instructionStages s) \<and>
         (isRunning s \<and> \<not> isFinished s \<and> currentStallCycles s = 0 \<longrightarrow>
            instructionStages (calculateNextState s) =
              map (stageAt s (currentCycle s + 1)) [0..<length (instructions s)]) \<and>
         (\<forall>i j. i < j \<longrightarrow>
            stageIndexOf (stalls s) (currentCycle s + 1) j <
            stageIndexOf (stalls s) (currentCycle s + 1) i)"
proof -
  from assms have "invariant s" by (simp add: invariant_run)
  then have "noSharedStage (instructionStages s)" by (simp add: invariant_def)
  moreover have "instructionStages (calculateNextState s) =
      map (stageAt s (currentCycle s + 1)) [0..<length (instructions s)]"
    if "isRunning s" "\<not> isFinished s" "currentStallCycles s = 0"
    using calculateNextState_advance [OF that] by auto
  ultimately show ?thesis
    by (simp add: stageIndexOf_decreasing)
qed

text \<open>Two additions, one tick after the start: stages 1 and 0, then stages 2 and 1.\<close>

theorem no_shared_stage_witness:
  "instructionStages (run [Start [0x00a63820, 0x00a64020], Tick]) = [Some 1, Some 0] \<and>
   noSharedStage [Some 1, Some 0] \<and>
   isRunning (run [Start [0x00a63820, 0x00a64020], Tick]) \<and>
   \<not> isFinished (run [Start [0x00a63820, 0x00a64020], Tick]) \<and>
   currentStallCycles (run [Start [0x00a63820, 0x00a64020], Tick]) = 0 \<and>
   instructionStages (calculateNextState (run [Start [0x00a63820, 0x00a64020], Tick])) =
     [Some 2, Some 1]"
proof -
  let ?s = "run [Start [0x00a63820, 0x00a64020], Tick]"
  have st: "instructionStages ?s = [Some 1, Some 0]" and r: "isRunning ?s"
    and f: "\<not> isFinished ?s" and z: "currentStallCycles ?s = 0"
    by (simp_all add: run_pair)
  have ev: "map (stageAt ?s (currentCycle ?s + 1)) [0..<length (instructions ?s)] =
      [Some 2, Some 1]"
    by (simp add: run_pair stageAt_def stageIndexOf_def calculatePrecedingStalls_def upt_rec)
  from no_shared_stage [OF refl, of "[Start [0x00a63820, 0x00a64020], Tick]"] st r f z ev
  have "noSharedStage [Some 1, Some 0] \<and>
      instructionStages (calculateNextState ?s) = [Some 2, Some 1]"
    by simp
  with st r f z show ?thesis by blast
qed

end
